theory Spec2Isabelle
  imports Complex_Main "HOL-Library.Sublist" "HOL-Library.AList"
begin

section \<open>JavaScript strings\<close>

text \<open>
  A JavaScript string is modelled as a \<^typ>\<open>string\<close>, one \<^typ>\<open>char\<close> per code unit, so
  the model covers the texts whose code units are below 256. The case conversions act on
  the ASCII letters and leave every other character alone.
\<close>

definition toUpperChar :: "char \<Rightarrow> char" where
  "toUpperChar c =
     (case map_of (zip ''abcdefghijklmnopqrstuvwxyz'' ''ABCDEFGHIJKLMNOPQRSTUVWXYZ'') c of
        Some u \<Rightarrow> u | None \<Rightarrow> c)"

definition toLowerChar :: "char \<Rightarrow> char" where
  "toLowerChar c =
     (case map_of (zip ''ABCDEFGHIJKLMNOPQRSTUVWXYZ'' ''abcdefghijklmnopqrstuvwxyz'') c of
        Some l \<Rightarrow> l | None \<Rightarrow> c)"

definition toUpperCase :: "string \<Rightarrow> string" where
  "toUpperCase s = map toUpperChar s"

definition toLowerCase :: "string \<Rightarrow> string" where
  "toLowerCase s = map toLowerChar s"

text \<open>\<open>s.startsWith(p)\<close> and \<open>s.endsWith(p)\<close>.\<close>

definition startsWith :: "string \<Rightarrow> string \<Rightarrow> bool" where
  "startsWith s p = prefix p s"

definition endsWith :: "string \<Rightarrow> string \<Rightarrow> bool" where
  "endsWith s p = suffix p s"

text \<open>\<open>s.includes(sub)\<close>: \<open>sub\<close> occurs in \<open>s\<close> at some position.\<close>

fun includesStr :: "string \<Rightarrow> string \<Rightarrow> bool" where
  "includesStr [] sub = (sub = [])"
| "includesStr (c # cs) sub = (prefix sub (c # cs) \<or> includesStr cs sub)"

text \<open>
  \<open>s.indexOf(sub)\<close> and \<open>s.lastIndexOf(sub)\<close>: the position of the first and of the last
  occurrence; JavaScript's \<open>-1\<close> is \<open>None\<close>.
\<close>

fun indexOf :: "string \<Rightarrow> string \<Rightarrow> nat option" where
  "indexOf [] sub = (if sub = [] then Some 0 else None)"
| "indexOf (c # cs) sub =
     (if prefix sub (c # cs) then Some 0 else map_option Suc (indexOf cs sub))"

fun lastIndexOf :: "string \<Rightarrow> string \<Rightarrow> nat option" where
  "lastIndexOf [] sub = (if sub = [] then Some 0 else None)"
| "lastIndexOf (c # cs) sub =
     (case lastIndexOf cs sub of
        Some i \<Rightarrow> Some (Suc i)
      | None \<Rightarrow> if prefix sub (c # cs) then Some 0 else None)"

text \<open>
  \<open>s.split(sep)\<close> for a nonempty separator (the source only splits at \<open>://\<close>, \<open>?\<close> and
  \<open>#\<close>): the pieces between the occurrences of \<open>sep\<close>, found from left to right without
  overlap. The result is never empty.
\<close>

fun split :: "string \<Rightarrow> string \<Rightarrow> string list" where
  "split [] sep = [[]]"
| "split (c # cs) sep =
     (if prefix sep (c # cs) then [] # split (drop (length sep - 1) cs) sep
      else (case split cs sep of
              p # ps \<Rightarrow> (c # p) # ps
            | [] \<Rightarrow> [[c]]))"

text \<open>
  White space as \<open>\s\<close> and \<open>trim()\<close> see it, among the code units below 256: tab, line
  feed, vertical tab, form feed, carriage return, space and the no-break space.
\<close>

definition isSpace :: "char \<Rightarrow> bool" where
  "isSpace c = (of_char c \<in> {9, 10, 11, 12, 13, 32, 160 :: nat})"

definition trim :: "string \<Rightarrow> string" where
  "trim s = rev (dropWhile isSpace (rev (dropWhile isSpace s)))"

section \<open>Requests and the object store\<close>

text \<open>
  \<open>PostmanRequest | OpenAPIRequest\<close>, with the fields the session code reads. The header
  object is a \<open>Record<string, string>\<close>: an association list in the order of insertion.
  The type parameter is what the field \<open>headers\<close> holds: the header object itself where
  a request is passed as a value, or a reference into the object store where the code
  copies and mutates header objects.
\<close>

type_synonym headers = "(string \<times> string) list"

record formitem =
  form_key :: string
  form_value :: "string option"

record body =
  body_raw :: "string option"
  body_formdata :: "formitem list option"

record 'h request =
  req_id :: string
  req_name :: string
  req_method :: string
  req_url :: string
  req_headers :: 'h
  req_body :: "body option"

section \<open>Session names\<close>

text \<open>\<open>fullPath.replace(/\/+/g, '/')\<close>: every maximal run of slashes becomes one slash.\<close>

function collapseSlashes :: "string \<Rightarrow> string" where
  "collapseSlashes [] = []"
| "collapseSlashes (c # cs) =
     (if c = CHR ''/'' then CHR ''/'' # collapseSlashes (dropWhile (\<lambda>d. d = CHR ''/'') cs)
      else c # collapseSlashes cs)"
  by pat_completeness auto
termination
  by (relation "measure length") (auto simp: less_Suc_eq_le length_dropWhile_le)

text \<open>
  \<open>url.replace(/^https?:\/\/[^\/]+/, '')\<close>: a leading \<open>http://\<close> or \<open>https://\<close> followed by
  at least one character other than a slash is removed together with all the characters
  up to the next slash; any other string is returned as it is.
\<close>

definition stripSchemeHost :: "string \<Rightarrow> string" where
  "stripSchemeHost s =
     (let rest = (if prefix ''https://'' s then Some (drop 8 s)
                  else if prefix ''http://'' s then Some (drop 7 s)
                  else None)
      in case rest of
           None \<Rightarrow> s
         | Some r \<Rightarrow> if takeWhile (\<lambda>c. c \<noteq> CHR ''/'') r = [] then s
                     else dropWhile (\<lambda>c. c \<noteq> CHR ''/'') r)"

text \<open>
  The four cases of \<open>generateCompleteSessionName\<close> that turn the URL into a path:
  a URL with \<open>://\<close>, a templated URL, a root-relative path, anything else.
\<close>

definition urlToPath :: "string \<Rightarrow> string" where
  "urlToPath u =
     (if includesStr u ''://'' then
        (let urlParts = split u ''://'' in
         if length urlParts > 1 \<and> urlParts ! 1 \<noteq> [] then
           (let afterProtocol = urlParts ! 1 in
            case indexOf afterProtocol ''/'' of
              Some firstSlash \<Rightarrow> drop firstSlash afterProtocol
            | None \<Rightarrow> ''/'')
         else u)
      else if includesStr u ''}}'' then
        (case lastIndexOf u ''}}'' of
           Some templateEnd \<Rightarrow>
             (let pathAfterTemplate = drop (templateEnd + 2) u in
              if startsWith pathAfterTemplate ''/'' then pathAfterTemplate
              else ''/'' @ pathAfterTemplate)
         | None \<Rightarrow> u)
      else if startsWith u ''/'' then u
      else ''/'' @ u)"

text \<open>
  \<open>if (fullPath.includes(c)) { const pathPart = fullPath.split(c)[0];
  if (pathPart) fullPath = pathPart }\<close>, used with \<open>?\<close> and then with \<open>#\<close>.
\<close>

definition cutAt :: "string \<Rightarrow> string \<Rightarrow> string" where
  "cutAt fullPath c =
     (if includesStr fullPath c then
        (case split fullPath c of
           pathPart # _ \<Rightarrow> if pathPart \<noteq> [] then pathPart else fullPath
         | [] \<Rightarrow> fullPath)
      else fullPath)"

text \<open>
  The path of \<open>generateCompleteSessionName\<close> before its last step: the URL turned into a
  path, cut at the query and at the fragment, its slashes collapsed and a leading slash
  ensured.
\<close>

definition normalizedPath :: "string \<Rightarrow> string" where
  "normalizedPath u =
     (let fullPath = collapseSlashes (cutAt (cutAt (urlToPath u) ''?'') ''#'')
      in if startsWith fullPath ''/'' then fullPath else ''/'' @ fullPath)"

text \<open>
  \<open>generateCompleteSessionName\<close>. When the path came out as \<open>/\<close> and the URL is not \<open>/\<close>,
  the original URL without its scheme and host is used instead. On a request whose
  \<open>url\<close> and \<open>method\<close> are strings no step of the \<open>try\<close> block throws, so the \<open>catch\<close>
  branch is not reached.
\<close>

definition generateCompleteSessionName :: "'h request \<Rightarrow> string" where
  "generateCompleteSessionName request =
     (let fullPath = normalizedPath (req_url request);
          fullPath = (if fullPath = ''/'' \<and> req_url request \<noteq> ''/'' then
                        (let fallback = stripSchemeHost (req_url request)
                         in if fallback \<noteq> [] then fallback else ''/'')
                      else fullPath)
      in toUpperCase (req_method request) @ '' '' @ fullPath)"

text \<open>
  The test \<open>urlParts.length > 1 && urlParts[1]\<close> of the first case, as a property of the
  URL: a URL that contains \<open>://\<close> has some text between its first \<open>://\<close> and the next one
  (or its end).
\<close>

definition hasAfterProtocol :: "string \<Rightarrow> bool" where
  "hasAfterProtocol u =
     (includesStr u ''://'' \<longrightarrow> length (split u ''://'') > 1 \<and> split u ''://'' ! 1 \<noteq> [])"

text \<open>
  A URL that is \<open>http://\<close> or \<open>https://\<close> followed by a host and nothing else: some text
  without any slash.
\<close>

definition hostOnly :: "string \<Rightarrow> bool" where
  "hostOnly u =
     (case (if prefix ''https://'' u then Some (drop 8 u)
            else if prefix ''http://'' u then Some (drop 7 u)
            else None) of
        None \<Rightarrow> False
      | Some r \<Rightarrow> r \<noteq> [] \<and> CHR ''/'' \<notin> set r)"

text \<open>The path that \<open>generateCompleteSessionName\<close> puts after the method.\<close>

definition sessionPath :: "string \<Rightarrow> string" where
  "sessionPath u =
     (let fullPath = normalizedPath u
      in if fullPath = ''/'' \<and> u \<noteq> ''/'' then
           (let fallback = stripSchemeHost u
            in if fallback \<noteq> [] then fallback else ''/'')
         else fullPath)"

section \<open>The object store\<close>

text \<open>
  Header objects live in a store, and a request holds a reference to its header object.
  A reference is a position in the store; a new object takes the next free position, so
  it differs from every reference in use. A store is well formed for a request when the
  request's reference is below the length of the store.
\<close>

type_synonym ref = nat

type_synonym store = "headers list"

definition load :: "store \<Rightarrow> ref \<Rightarrow> headers" where
  "load st p = (if p < length st then st ! p else [])"

definition alloc :: "store \<Rightarrow> headers \<Rightarrow> ref \<times> store" where
  "alloc st h = (length st, st @ [h])"

text \<open>\<open>delete obj[k]\<close> on the object at \<open>p\<close>.\<close>

definition deleteProp :: "store \<Rightarrow> ref \<Rightarrow> string \<Rightarrow> store" where
  "deleteProp st p k = (if p < length st then st[p := AList.delete k (st ! p)] else st)"

text \<open>
  \<open>obj[k] = v\<close> on the object at \<open>p\<close>, for a string \<open>v\<close>: an existing property keeps its
  place, a new one goes last. Header objects are created by \<open>{}\<close> or by spreading and
  are filled by assignment, so \<open>__proto__\<close> is never an own property of one, and assigning
  a string to it changes nothing.
\<close>

definition setProp :: "store \<Rightarrow> ref \<Rightarrow> string \<Rightarrow> string \<Rightarrow> store" where
  "setProp st p k v =
     (if p < length st \<and> k \<noteq> ''__proto__'' then st[p := AList.update k v (st ! p)] else st)"

section \<open>Authentication\<close>

text \<open>
  \<open>AuthConfig\<close>: the tag \<open>type\<close> and the optional fields. An absent field is \<open>None\<close>; a
  field is truthy when it is present and not the empty string.
\<close>

record AuthConfig =
  auth_type :: string
  auth_key :: "string option"
  auth_value :: "string option"
  auth_token :: "string option"
  auth_username :: "string option"
  auth_password :: "string option"
  auth_header :: "string option"
  auth_hostname :: "string option"

definition truthy :: "string option \<Rightarrow> bool" where
  "truthy s = (case s of None \<Rightarrow> False | Some v \<Rightarrow> v \<noteq> [])"

text \<open>\<open>`${s}`\<close> for an optional string field: an absent field prints as \<open>undefined\<close>.\<close>

definition strOf :: "string option \<Rightarrow> string" where
  "strOf s = (case s of None \<Rightarrow> ''undefined'' | Some v \<Rightarrow> v)"

text \<open>
  The local \<open>btoa\<close>. When the host has a \<open>btoa\<close> of its own, that one is called, and an
  exception it throws gives the empty string; the host's function is a parameter of the
  model (\<open>None\<close> when the host has none, and a result \<open>None\<close> when it throws). Otherwise
  the loop of the source runs: three code units at a time, four digits out. With code
  units below 256 the three shifted values do not overlap, so the bitwise \<open>|\<close> is a sum.
\<close>

definition base64chars :: string where
  "base64chars = ''ABCDEFGHIJKLMNOPQRSTUVWXYZabcdefghijklmnopqrstuvwxyz0123456789+/''"

definition charAt :: "string \<Rightarrow> nat \<Rightarrow> string" where
  "charAt s i = (if i < length s then [s ! i] else [])"

function btoaLoop :: "string \<Rightarrow> nat \<Rightarrow> string \<Rightarrow> string" where
  "btoaLoop str i result =
     (if i < length str then
        (let a = (of_char (str ! i) :: nat);
             i1 = i + 1;
             b = (if i1 < length str then of_char (str ! i1) else 0);
             i2 = (if i1 < length str then i1 + 1 else i1);
             c = (if i2 < length str then of_char (str ! i2) else 0);
             i3 = (if i2 < length str then i2 + 1 else i2);
             bitmap = a * 65536 + b * 256 + c
         in btoaLoop str i3
              (result @ charAt base64chars (bitmap div 262144 mod 64)
                      @ charAt base64chars (bitmap div 4096 mod 64)
                      @ (if int i3 - 2 < int (length str)
                         then charAt base64chars (bitmap div 64 mod 64) else ''='')
                      @ (if int i3 - 1 < int (length str)
                         then charAt base64chars (bitmap mod 64) else ''='')))
      else result)"
  by pat_completeness auto
termination
  by (relation "measure (\<lambda>(str, i, result). length str - i)") (auto simp: Let_def)

declare btoaLoop.simps [simp del]

definition btoa :: "(string \<Rightarrow> string option) option \<Rightarrow> string \<Rightarrow> string" where
  "btoa hostBtoa str =
     (case hostBtoa of
        Some f \<Rightarrow> (case f str of Some r \<Rightarrow> r | None \<Rightarrow> [])
      | None \<Rightarrow> btoaLoop str 0 [])"

text \<open>
  \<open>applyAuthentication\<close>. The request is copied with a copy of its header object, which
  is a new object in the store; every \<open>delete\<close> and assignment of the \<open>switch\<close> acts on
  the copy. The result is the new request and the store after the call.
\<close>

definition applyAuthentication ::
  "(string \<Rightarrow> string option) option \<Rightarrow> store \<Rightarrow> ref request \<Rightarrow> AuthConfig \<Rightarrow> ref request \<times> store"
where
  "applyAuthentication hostBtoa st request authConfig =
     (let (h, st1) = alloc st (load st (req_headers request));
          processedRequest = request\<lparr>req_headers := h\<rparr>;
          dropApiKeys = (\<lambda>s. deleteProp (deleteProp (deleteProp (deleteProp s h ''X-API-Key'')
                              h ''x-api-key'') h ''X-Auth-Token'') h ''x-auth-token'');
          st2 =
            (if auth_type authConfig = ''none'' then st1
             else if auth_type authConfig = ''apikey'' then
               (if truthy (auth_key authConfig) \<and> truthy (auth_value authConfig) then
                  setProp (deleteProp (deleteProp st1 h ''Authorization'') h ''authorization'')
                    h (strOf (auth_key authConfig)) (strOf (auth_value authConfig))
                else st1)
             else if auth_type authConfig = ''bearer'' then
               (if truthy (auth_token authConfig) then
                  setProp (dropApiKeys st1) h ''Authorization''
                    (''Bearer '' @ strOf (auth_token authConfig))
                else st1)
             else if auth_type authConfig = ''basic'' then
               (if truthy (auth_username authConfig) \<and> truthy (auth_password authConfig) then
                  (let credentials = btoa hostBtoa
                         (strOf (auth_username authConfig) @ '':'' @ strOf (auth_password authConfig))
                   in setProp (dropApiKeys st1) h ''Authorization'' (''Basic '' @ credentials))
                else st1)
             else if auth_type authConfig = ''custom'' then
               (if truthy (auth_header authConfig) \<and> truthy (auth_value authConfig) then
                  (let st' = (if toLowerCase (strOf (auth_header authConfig)) = ''authorization''
                              then deleteProp (deleteProp st1 h ''X-API-Key'') h ''x-api-key''
                              else st1)
                   in setProp st' h (strOf (auth_header authConfig)) (strOf (auth_value authConfig)))
                else st1)
             else st1)
      in (processedRequest, st2))"

section \<open>Request specifications\<close>

text \<open>
  The result of \<open>parseUrl\<close>. The pattern
  \<open>/^(https?):\/\/([^:\/\s]+)(?::(\d+))?(\/[^\s?]*)?(\?[^\s]*)?/\<close> is matched from the
  start of the string and need not reach its end. Each repetition takes the longest run
  of its character class; every group after the host is optional and nothing follows
  it that could fail, so the longest run is the one the match keeps.
\<close>

record urlObj =
  url_protocol :: string
  url_hostname :: string
  url_port :: "string option"
  url_pathname :: string
  url_search :: "string option"

definition isDigit :: "char \<Rightarrow> bool" where
  "isDigit c = (c \<in> set ''0123456789'')"

definition parseUrl :: "string \<Rightarrow> urlObj option" where
  "parseUrl urlString =
     (let scheme = (if prefix ''https://'' urlString then Some (''https'', drop 8 urlString)
                    else if prefix ''http://'' urlString then Some (''http'', drop 7 urlString)
                    else None)
      in case scheme of
           None \<Rightarrow> None
         | Some (proto, s1) \<Rightarrow>
             (let isHost = (\<lambda>c. c \<noteq> CHR '':'' \<and> c \<noteq> CHR ''/'' \<and> \<not> isSpace c);
                  host = takeWhile isHost s1;
                  s2 = dropWhile isHost s1;
                  digits = (case s2 of c # cs \<Rightarrow> if c = CHR '':'' then takeWhile isDigit cs else []
                                     | [] \<Rightarrow> []);
                  s3 = (if digits = [] then s2 else drop (Suc (length digits)) s2);
                  isPath = (\<lambda>c. \<not> isSpace c \<and> c \<noteq> CHR ''?'');
                  path = (case s3 of c # cs \<Rightarrow> if c = CHR ''/'' then c # takeWhile isPath cs else []
                                   | [] \<Rightarrow> []);
                  s4 = drop (length path) s3;
                  search = (case s4 of c # cs \<Rightarrow>
                                         if c = CHR ''?'' then c # takeWhile (\<lambda>d. \<not> isSpace d) cs
                                         else []
                                     | [] \<Rightarrow> [])
              in if host = [] then None
                 else Some \<lparr>url_protocol = proto @ '':'',
                            url_hostname = host,
                            url_port = (if digits = [] then None else Some digits),
                            url_pathname = (if path = [] then ''/'' else path),
                            url_search = (if search = [] then None else Some search)\<rparr>))"

text \<open>
  The pattern \<open>/\{\{[^}]+\}\}/g\<close> at the start of a string: \<open>{{\<close>, the longest nonempty
  run of characters other than \<open>}\<close>, and \<open>}}\<close>. The result is the matched text and the
  rest of the string after it.
\<close>

definition matchTemplate :: "string \<Rightarrow> (string \<times> string) option" where
  "matchTemplate s =
     (if prefix ''{{'' s then
        (let r = drop 2 s;
             run = takeWhile (\<lambda>c. c \<noteq> CHR ''}'') r;
             post = dropWhile (\<lambda>c. c \<noteq> CHR ''}'') r
         in if run \<noteq> [] \<and> prefix ''}}'' post
            then Some (''{{'' @ run @ ''}}'', drop 2 post) else None)
      else None)"

text \<open>
  The replacement text of \<open>String.prototype.replace\<close>, for a pattern without groups:
  \<open>$$\<close> is a dollar sign, \<open>$&\<close> the matched text, \<open>$`\<close> the text before the match and \<open>$'\<close>
  the text after it; any other character stands for itself.
\<close>

fun expandReplacement :: "string \<Rightarrow> string \<Rightarrow> string \<Rightarrow> string \<Rightarrow> string" where
  "expandReplacement [] matched pre post = []"
| "expandReplacement [c] matched pre post = [c]"
| "expandReplacement (c # d # cs) matched pre post =
     (if c = CHR ''$'' \<and> d = CHR ''$'' then CHR ''$'' # expandReplacement cs matched pre post
      else if c = CHR ''$'' \<and> d = CHR ''&'' then matched @ expandReplacement cs matched pre post
      else if c = CHR ''$'' \<and> d = CHR 0x60 then pre @ expandReplacement cs matched pre post
      else if c = CHR ''$'' \<and> d = CHR 0x27 then post @ expandReplacement cs matched pre post
      else c # expandReplacement (d # cs) matched pre post)"

text \<open>
  \<open>s.replace(/\{\{[^}]+\}\}/g, replacement)\<close>: every match, from left to right, is
  replaced; the search goes on after the end of the match. The second argument is the
  text already passed.
\<close>

function replaceTemplates :: "string \<Rightarrow> string \<Rightarrow> string \<Rightarrow> string" where
  "replaceTemplates replacement pre [] = []"
| "replaceTemplates replacement pre (c # cs) =
     (case matchTemplate (c # cs) of
        Some (matched, rest) \<Rightarrow>
          (if length rest < length (c # cs)
           then expandReplacement replacement matched pre rest
                  @ replaceTemplates replacement (pre @ matched) rest
           else [])
      | None \<Rightarrow> c # replaceTemplates replacement (pre @ [c]) cs)"
  by pat_completeness auto
termination
  by (relation "measure (\<lambda>(replacement, pre, s). length s)") auto

text \<open>\<open>encodeURIComponent\<close> on code units below 256: the unreserved characters stay, every
  other one becomes the percent-escapes of its UTF-8 bytes.\<close>

definition hexDigit :: "nat \<Rightarrow> char" where
  "hexDigit n = ''0123456789ABCDEF'' ! (n mod 16)"

definition percentByte :: "nat \<Rightarrow> string" where
  "percentByte n = [CHR ''%'', hexDigit (n div 16), hexDigit n]"

definition encodeURIChar :: "char \<Rightarrow> string" where
  "encodeURIChar c =
     (if c \<in> set ''ABCDEFGHIJKLMNOPQRSTUVWXYZabcdefghijklmnopqrstuvwxyz0123456789-_.!~*'' \<or>
         c = CHR 0x27 \<or> c = CHR ''('' \<or> c = CHR '')'' then [c]
      else (let n = (of_char c :: nat) in
            if n < 128 then percentByte n
            else percentByte (192 + n div 64) @ percentByte (128 + n mod 64)))"

definition encodeURIComponent :: "string \<Rightarrow> string" where
  "encodeURIComponent s = concat (map encodeURIChar s)"

text \<open>\<open>pairs.join('&')\<close>.\<close>

fun joinWith :: "string \<Rightarrow> string list \<Rightarrow> string" where
  "joinWith sep [] = []"
| "joinWith sep [x] = x"
| "joinWith sep (x # y # ys) = x @ sep @ joinWith sep (y # ys)"

text \<open>\<open>parseInt\<close> on a nonempty string of decimal digits.\<close>

definition digitValue :: "char \<Rightarrow> nat" where
  "digitValue c = (of_char c :: nat) - 48"

definition parseInt :: "string \<Rightarrow> nat" where
  "parseInt ds = foldl (\<lambda>n c. 10 * n + digitValue c) 0 ds"

record RequestSpec =
  spec_method :: string
  spec_host :: string
  spec_port :: nat
  spec_path :: string
  spec_query :: string
  spec_headers :: headers
  spec_body :: string
  spec_tls :: bool
  spec_url :: string

text \<open>
  The first part of \<open>buildRequestSpec\<close>: the target URL from the request's URL and the
  optional host name. \<open>parseUrl\<close> does not throw, so the \<open>catch\<close> of the inner \<open>try\<close> is
  not reached.
\<close>

definition resolveTargetUrl :: "string \<Rightarrow> string option \<Rightarrow> string" where
  "resolveTargetUrl u hostname =
     (let targetUrl =
        (if truthy hostname \<and> trim (strOf hostname) \<noteq> [] then
           (if includesStr u ''{{'' \<and> includesStr u ''}}'' then
              replaceTemplates (trim (strOf hostname)) [] u
            else if startsWith u ''/'' then ''https://'' @ trim (strOf hostname) @ u
            else (case parseUrl (if startsWith u ''http'' then u else ''https://'' @ u) of
                    Some urlObj \<Rightarrow> url_protocol urlObj @ ''//'' @ trim (strOf hostname)
                                     @ url_pathname urlObj
                                     @ (case url_search urlObj of Some q \<Rightarrow> q | None \<Rightarrow> [])
                  | None \<Rightarrow> u))
         else if includesStr u ''{{'' \<and> includesStr u ''}}'' then
           (if startsWith u ''/'' then ''https://example.com'' @ u
            else replaceTemplates ''example.com'' [] u)
         else if startsWith u ''/'' then ''https://example.com'' @ u
         else u)
      in if \<not> startsWith targetUrl ''http'' then ''https://'' @ targetUrl else targetUrl)"

text \<open>
  \<open>buildRequestSpec\<close>. The headers of the specification are a copy of the request's
  header object, read from the store, with \<open>Content-Type\<close> set when the body is form
  data. A body of the OpenAPI parser has neither \<open>raw\<close> nor \<open>formdata\<close>. \<open>None\<close> is the
  result \<open>null\<close>.
\<close>

definition buildRequestSpec :: "store \<Rightarrow> ref request \<Rightarrow> string option \<Rightarrow> RequestSpec option" where
  "buildRequestSpec st request hostname =
     (let targetUrl = resolveTargetUrl (req_url request) hostname in
      case parseUrl targetUrl of
        None \<Rightarrow> None
      | Some urlObj \<Rightarrow>
          (let finalHeaders = load st (req_headers request);
               (finalBody, finalHeaders) =
                 (case req_body request of
                    None \<Rightarrow> ([], finalHeaders)
                  | Some b \<Rightarrow>
                      if truthy (body_raw b) then (strOf (body_raw b), finalHeaders)
                      else (case body_formdata b of
                              None \<Rightarrow> ([], finalHeaders)
                            | Some items \<Rightarrow>
                                (joinWith ''&''
                                   (map (\<lambda>item. encodeURIComponent (form_key item) @ ''=''
                                           @ encodeURIComponent
                                               (if truthy (form_value item)
                                                then strOf (form_value item) else []))
                                        items),
                                 AList.update ''Content-Type''
                                   ''application/x-www-form-urlencoded'' finalHeaders)))
           in Some \<lparr>spec_method = req_method request,
                     spec_host = url_hostname urlObj,
                     spec_port = (case url_port urlObj of
                                    Some p \<Rightarrow> parseInt p
                                  | None \<Rightarrow> if url_protocol urlObj = ''https:'' then 443 else 80),
                     spec_path = url_pathname urlObj,
                     spec_query = (case url_search urlObj of Some q \<Rightarrow> q | None \<Rightarrow> []),
                     spec_headers = finalHeaders,
                     spec_body = finalBody,
                     spec_tls = (url_protocol urlObj = ''https:''),
                     spec_url = targetUrl\<rparr>))"

section \<open>Secret variables\<close>

definition SENSITIVE_KEYWORDS :: "string list" where
  "SENSITIVE_KEYWORDS =
     [''token'', ''key'', ''secret'', ''password'', ''auth'', ''authorization'',
      ''bearer'', ''api_key'', ''apikey'', ''client_secret'', ''access_token'',
      ''refresh_token'', ''private_key'', ''credential'', ''pass'', ''pwd'']"

text \<open>
  \<open>/^[a-zA-Z0-9_\-\.]{20,}$/.test(value)\<close>: the whole value is made of at least twenty
  characters of the class.
\<close>

definition isTokenChar :: "char \<Rightarrow> bool" where
  "isTokenChar c =
     (c \<in> set ''abcdefghijklmnopqrstuvwxyzABCDEFGHIJKLMNOPQRSTUVWXYZ0123456789_-.'')"

definition matchesTokenPattern :: "string \<Rightarrow> bool" where
  "matchesTokenPattern v = (20 \<le> length v \<and> list_all isTokenChar v)"

definition shouldBeSecret :: "string \<Rightarrow> string \<Rightarrow> bool" where
  "shouldBeSecret k v =
     (let keyLower = toLowerCase k;
          keyHasSensitive = list_ex (\<lambda>keyword. includesStr keyLower keyword) SENSITIVE_KEYWORDS;
          valueIsToken = (matchesTokenPattern v \<and> length v > 20)
      in keyHasSensitive \<or> valueIsToken)"

section \<open>JSON documents and JavaScript values\<close>

text \<open>
  The value that \<open>JSON.parse\<close> returns. An object lists its own properties in the order
  in which JavaScript enumerates them, each name once. \<open>JSON.parse\<close> itself is a
  parameter of the functions that call it: it returns the document, or throws a
  \<open>SyntaxError\<close> with the host's message.
\<close>

datatype json =
    JNull
  | JBool bool
  | JNum real
  | JStr string
  | JArr "json list"
  | JObj "(string \<times> json) list"

text \<open>
  What an expression of the source can hold besides a JSON value: \<open>undefined\<close>, and a
  function (the inherited method \<open>values\<close> of an array).
\<close>

datatype jsval = Undefined | Function | J json

datatype exn = SyntaxError string | TypeError string | Error string

fun message :: "exn \<Rightarrow> string" where
  "message (SyntaxError m) = m"
| "message (TypeError m) = m"
| "message (Error m) = m"

text \<open>Sequencing of steps that may throw.\<close>

definition bindE :: "exn + 'a \<Rightarrow> ('a \<Rightarrow> exn + 'b) \<Rightarrow> exn + 'b" where
  "bindE m f = (case m of Inl e \<Rightarrow> Inl e | Inr x \<Rightarrow> f x)"

fun truthyV :: "jsval \<Rightarrow> bool" where
  "truthyV Undefined = False"
| "truthyV Function = True"
| "truthyV (J JNull) = False"
| "truthyV (J (JBool b)) = b"
| "truthyV (J (JNum n)) = (n \<noteq> 0)"
| "truthyV (J (JStr s)) = (s \<noteq> [])"
| "truthyV (J (JArr xs)) = True"
| "truthyV (J (JObj ps)) = True"

fun typeof :: "jsval \<Rightarrow> string" where
  "typeof Undefined = ''undefined''"
| "typeof Function = ''function''"
| "typeof (J JNull) = ''object''"
| "typeof (J (JBool b)) = ''boolean''"
| "typeof (J (JNum n)) = ''number''"
| "typeof (J (JStr s)) = ''string''"
| "typeof (J (JArr xs)) = ''object''"
| "typeof (J (JObj ps)) = ''object''"

fun isArray :: "jsval \<Rightarrow> bool" where
  "isArray (J (JArr xs)) = True"
| "isArray v = False"

text \<open>The text of a value that is known to be a string.\<close>

fun stringOf :: "jsval \<Rightarrow> string" where
  "stringOf (J (JStr s)) = s"
| "stringOf v = []"

text \<open>The decimal numeral of a natural number, as an array index is written.\<close>

function showNat :: "nat \<Rightarrow> string" where
  "showNat n = (if n < 10 then [''0123456789'' ! n]
                else showNat (n div 10) @ [''0123456789'' ! (n mod 10)])"
  by pat_completeness auto
termination
  by (relation "measure id") auto

declare showNat.simps [simp del]

text \<open>
  \<open>Object.entries(v)\<close>: the own properties of an object, the elements of an array under
  their indices, the characters of a string under theirs; nothing for the other values.
\<close>

fun objectEntries :: "jsval \<Rightarrow> (string \<times> json) list" where
  "objectEntries (J (JObj ps)) = ps"
| "objectEntries (J (JArr xs)) = zip (map showNat [0..<length xs]) xs"
| "objectEntries (J (JStr s)) = zip (map showNat [0..<length s]) (map (\<lambda>c. JStr [c]) s)"
| "objectEntries v = []"

text \<open>
  The property read \<open>v.k\<close> or \<open>v[k]\<close>, for the names the source reads. It throws a
  \<open>TypeError\<close> on \<open>null\<close> and \<open>undefined\<close> (the message is the host's; the one given here
  is that of V8). An object has its own properties and inherits none of these names; an
  array has its elements, its \<open>length\<close> and, of these names, inherits \<open>values\<close>; a string
  has its characters and its \<open>length\<close>; the other values have none of them.
\<close>

definition cannotRead :: "string \<Rightarrow> string \<Rightarrow> exn" where
  "cannotRead what k =
     TypeError (''Cannot read properties of '' @ what @ '' (reading '' @ [CHR 0x27] @ k
                @ [CHR 0x27] @ '')'')"

text \<open>The property \<open>k\<close> in a list of own properties; \<open>undefined\<close> when there is none.\<close>

definition lookupV :: "(string \<times> json) list \<Rightarrow> string \<Rightarrow> jsval" where
  "lookupV ps k = (case map_of ps k of Some v \<Rightarrow> J v | None \<Rightarrow> Undefined)"

text \<open>
  The index that a property name denotes: a decimal numeral without a leading zero.
\<close>

definition arrayIndex :: "string \<Rightarrow> nat option" where
  "arrayIndex k =
     (if k \<noteq> [] \<and> list_all isDigit k \<and> (k = ''0'' \<or> \<not> prefix ''0'' k)
      then Some (parseInt k) else None)"

definition element :: "json list \<Rightarrow> string \<Rightarrow> jsval" where
  "element xs k =
     (case arrayIndex k of
        None \<Rightarrow> Undefined
      | Some i \<Rightarrow> if i < length xs then J (xs ! i) else Undefined)"

fun getProp :: "jsval \<Rightarrow> string \<Rightarrow> exn + jsval" where
  "getProp Undefined k = Inl (cannotRead ''undefined'' k)"
| "getProp (J JNull) k = Inl (cannotRead ''null'' k)"
| "getProp (J (JObj ps)) k = Inr (lookupV ps k)"
| "getProp (J (JArr xs)) k =
     Inr (if k = ''length'' then J (JNum (real (length xs)))
          else if k = ''values'' then Function
          else element xs k)"
| "getProp (J (JStr s)) k =
     Inr (if k = ''length'' then J (JNum (real (length s)))
          else element (map (\<lambda>c. JStr [c]) s) k)"
| "getProp v k = Inr Undefined"

text \<open>
  \<open>ToString\<close>, as a template literal applies it. The language fixes the text of a
  string, of \<open>undefined\<close>, of \<open>null\<close> and of a boolean; the text of a number, an array, an
  object or a function is the host's, a parameter of the model, and the conversion of
  an object may throw.
\<close>

definition ToString :: "(jsval \<Rightarrow> exn + string) \<Rightarrow> jsval \<Rightarrow> exn + string" where
  "ToString conv v =
     (case v of
        Undefined \<Rightarrow> Inr ''undefined''
      | J JNull \<Rightarrow> Inr ''null''
      | J (JBool b) \<Rightarrow> Inr (if b then ''true'' else ''false'')
      | J (JStr s) \<Rightarrow> Inr s
      | _ \<Rightarrow> conv v)"

section \<open>Regular expressions of the classifier\<close>

text \<open>
  The patterns of \<open>isLikelyYAML\<close> are sequences of these pieces: \<open>^\<close> and \<open>$\<close> under the
  flag \<open>m\<close>, a literal text, one character of a class, and a class under \<open>*\<close> or \<open>+\<close>.
  \<open>test\<close> asks whether the sequence matches at some position; a repetition may stop
  after any number of characters, which is all that backtracking can try.
\<close>

datatype atom =
    Bol
  | Eol
  | Lit string
  | One "char \<Rightarrow> bool"
  | Star "char \<Rightarrow> bool"
  | Plus "char \<Rightarrow> bool"

definition isLineTerminator :: "char \<Rightarrow> bool" where
  "isLineTerminator c = (of_char c \<in> {10, 13 :: nat})"

definition isWordChar :: "char \<Rightarrow> bool" where
  "isWordChar c =
     (c \<in> set ''abcdefghijklmnopqrstuvwxyzABCDEFGHIJKLMNOPQRSTUVWXYZ0123456789_'')"

text \<open>
  The second argument is the character before the position, \<open>None\<close> at the start of the
  input.
\<close>

fun matchAtoms :: "atom list \<Rightarrow> char option \<Rightarrow> string \<Rightarrow> bool" where
  "matchAtoms [] prev s = True"
| "matchAtoms (Bol # rest) prev s =
     ((case prev of None \<Rightarrow> True | Some c \<Rightarrow> isLineTerminator c) \<and> matchAtoms rest prev s)"
| "matchAtoms (Eol # rest) prev s =
     ((case s of [] \<Rightarrow> True | c # cs \<Rightarrow> isLineTerminator c) \<and> matchAtoms rest prev s)"
| "matchAtoms (Lit [] # rest) prev s = matchAtoms rest prev s"
| "matchAtoms (Lit (l # ls) # rest) prev s =
     (case s of [] \<Rightarrow> False | c # cs \<Rightarrow> c = l \<and> matchAtoms (Lit ls # rest) (Some c) cs)"
| "matchAtoms (One p # rest) prev s =
     (case s of [] \<Rightarrow> False | c # cs \<Rightarrow> p c \<and> matchAtoms rest (Some c) cs)"
| "matchAtoms (Plus p # rest) prev s =
     (case s of [] \<Rightarrow> False | c # cs \<Rightarrow> p c \<and> matchAtoms (Star p # rest) (Some c) cs)"
| "matchAtoms (Star p # rest) prev s =
     (matchAtoms rest prev s \<or>
      (case s of [] \<Rightarrow> False | c # cs \<Rightarrow> p c \<and> matchAtoms (Star p # rest) (Some c) cs))"

fun searchFrom :: "atom list \<Rightarrow> char option \<Rightarrow> string \<Rightarrow> bool" where
  "searchFrom atoms prev [] = matchAtoms atoms prev []"
| "searchFrom atoms prev (c # cs) =
     (matchAtoms atoms prev (c # cs) \<or> searchFrom atoms (Some c) cs)"

definition regexTest :: "atom list \<Rightarrow> string \<Rightarrow> bool" where
  "regexTest atoms s = searchFrom atoms None s"

section \<open>The format classifier\<close>

datatype FileType = Postman | OpenAPI | Environment | Unknown

record FileTypeResult =
  ftr_type :: FileType
  ftr_confidence :: real
  ftr_details :: string

fun fileTypeName :: "FileType \<Rightarrow> string" where
  "fileTypeName Postman = ''postman''"
| "fileTypeName OpenAPI = ''openapi''"
| "fileTypeName Environment = ''environment''"
| "fileTypeName Unknown = ''unknown''"

text \<open>
  \<open>isPostmanCollection\<close>. The result is used as a condition only, so the model returns
  whether it is truthy. The first read throws when the document is \<open>null\<close>.
\<close>

definition isPostmanCollection :: "json \<Rightarrow> exn + bool" where
  "isPostmanCollection data =
     bindE (getProp (J data) ''info'') (\<lambda>info.
       if \<not> truthyV info \<or> typeof info \<noteq> ''object'' then Inr False
       else
         bindE (getProp info ''name'') (\<lambda>name.
           if \<not> truthyV name \<or> typeof name \<noteq> ''string'' then Inr False
           else
             bindE (getProp info ''schema'') (\<lambda>schema.
             bindE (getProp (J data) ''item'') (\<lambda>item.
             bindE (getProp info ''_postman_id'') (\<lambda>postmanId.
             bindE (getProp info ''version'') (\<lambda>version.
               (let hasPostmanSchema = (truthyV schema \<and> typeof schema = ''string'' \<and>
                                        includesStr (stringOf schema) ''postman'');
                    hasPostmanStructure = (truthyV item \<and> isArray item);
                    hasPostmanVersion = (truthyV postmanId \<or> truthyV version \<or> hasPostmanSchema)
                in Inr (hasPostmanSchema \<or> (hasPostmanStructure \<and> hasPostmanVersion)))))))))"

definition httpMethods :: "string list" where
  "httpMethods = [''get'', ''post'', ''put'', ''patch'', ''delete'', ''head'', ''options'']"

text \<open>
  \<open>isOpenAPISpec\<close>. \<open>method in firstPath\<close> asks for a property of an object or an array;
  neither inherits one of the seven names.
\<close>

definition isOpenAPISpec :: "json \<Rightarrow> exn + bool" where
  "isOpenAPISpec data =
     bindE (getProp (J data) ''openapi'') (\<lambda>openapi.
       if truthyV openapi \<and> typeof openapi = ''string''
       then Inr (startsWith (stringOf openapi) ''3.'')
       else
         bindE (getProp (J data) ''swagger'') (\<lambda>swagger.
           if truthyV swagger \<and> typeof swagger = ''string''
           then Inr (startsWith (stringOf swagger) ''2.'')
           else
             bindE (getProp (J data) ''info'') (\<lambda>info.
             bindE (getProp (J data) ''paths'') (\<lambda>paths.
               if truthyV info \<and> truthyV paths \<and> typeof info = ''object'' \<and> typeof paths = ''object''
               then
                 (let pathKeys = map fst (objectEntries paths) in
                  case pathKeys of
                    [] \<Rightarrow> Inr False
                  | key0 # _ \<Rightarrow>
                      if key0 = [] then Inr False
                      else
                        bindE (getProp paths key0) (\<lambda>firstPath.
                          if truthyV firstPath \<and> typeof firstPath = ''object''
                          then Inr (list_ex (\<lambda>method. method \<in> fst ` set (objectEntries firstPath))
                                      httpMethods)
                          else Inr False))
               else Inr False))))"

text \<open>\<open>detectFromFilename\<close>: the first list with a pattern that the lowered name contains.\<close>

definition detectFromFilename :: "string \<Rightarrow> FileType" where
  "detectFromFilename fileName =
     (let lowerName = toLowerCase fileName;
          environmentPatterns = [''environment'', ''env'', ''.postman_environment.'',
                                 ''_environment.'', ''postman_env''];
          postmanPatterns = [''postman_collection'', ''collection'', ''newman'',
                             ''.postman_collection.'', ''_collection.'', ''api_collection'',
                             ''requests''];
          openApiPatterns = [''openapi'', ''swagger'', ''api-docs'', ''api_spec'', ''spec.json'',
                             ''spec.yaml'', ''spec.yml'', ''oas'', ''rest-api'']
      in if list_ex (includesStr lowerName) environmentPatterns then Environment
         else if list_ex (includesStr lowerName) postmanPatterns then Postman
         else if list_ex (includesStr lowerName) openApiPatterns then OpenAPI
         else if endsWith lowerName ''.yaml'' \<or> endsWith lowerName ''.yml'' then OpenAPI
         else Unknown)"

text \<open>
  The four patterns of \<open>isLikelyYAML\<close>: \<open>/^---\s*$/m\<close>, \<open>/^\s*\w+:\s*$/m\<close>, \<open>/^\s*-\s+/m\<close> and
  \<open>/^\s*[\w-]+:\s+[\w-]/m\<close>.
\<close>

definition yamlIndicators :: "atom list list" where
  "yamlIndicators =
     [[Bol, Lit ''---'', Star isSpace, Eol],
      [Bol, Star isSpace, Plus isWordChar, Lit '':'', Star isSpace, Eol],
      [Bol, Star isSpace, Lit ''-'', Plus isSpace],
      [Bol, Star isSpace, Plus (\<lambda>c. isWordChar c \<or> c = CHR ''-''), Lit '':'', Plus isSpace,
       One (\<lambda>c. isWordChar c \<or> c = CHR ''-'')]]"

definition indicatorCount :: "string \<Rightarrow> nat" where
  "indicatorCount content = length (filter (\<lambda>indicator. regexTest indicator content) yamlIndicators)"

definition hasJsonIndicators :: "string \<Rightarrow> bool" where
  "hasJsonIndicators content =
     (startsWith (trim content) ''{'' \<or> startsWith (trim content) ''['')"

definition isLikelyYAML :: "string \<Rightarrow> string \<Rightarrow> bool" where
  "isLikelyYAML content fileName =
     (if endsWith (toLowerCase fileName) ''.yaml'' \<or> endsWith (toLowerCase fileName) ''.yml''
      then True
      else indicatorCount content \<ge> 2 \<and> \<not> hasJsonIndicators content)"

text \<open>
  \<open>isPostmanEnvironment\<close>: the body of the \<open>try\<close>, and the function, whose \<open>catch\<close> turns
  every exception into \<open>false\<close>. The result is used as a condition only, so the model
  returns whether it is truthy.
\<close>

definition isPostmanEnvironmentTry :: "(string \<Rightarrow> exn + json) \<Rightarrow> string \<Rightarrow> string \<Rightarrow> exn + bool" where
  "isPostmanEnvironmentTry parse content fileName =
     bindE (parse content) (\<lambda>data.
     bindE (getProp (J data) ''name'') (\<lambda>name.
       if \<not> truthyV name \<or> typeof name \<noteq> ''string'' then Inr False
       else
         bindE (getProp (J data) ''values'') (\<lambda>vals.
           if \<not> truthyV vals \<or> \<not> isArray vals then Inr False
           else
             bindE (getProp (J data) ''_postman_variable_scope'') (\<lambda>scope.
             bindE (getProp (J data) ''_postman_exported_at'') (\<lambda>exportedAt.
               (let hasPostmanScope = (scope = J (JStr ''environment''));
                    hasPostmanExport = (truthyV exportedAt \<and> typeof exportedAt = ''string'');
                    hasEnvironmentInName = (includesStr (toLowerCase fileName) ''environment'' \<or>
                                            includesStr (toLowerCase fileName) ''env'')
                in Inr ((hasPostmanScope \<or> hasPostmanExport) \<and> hasEnvironmentInName)))))))"

definition isPostmanEnvironment :: "(string \<Rightarrow> exn + json) \<Rightarrow> string \<Rightarrow> string \<Rightarrow> bool" where
  "isPostmanEnvironment parse content fileName =
     (case isPostmanEnvironmentTry parse content fileName of
        Inr b \<Rightarrow> b
      | Inl e \<Rightarrow> False)"

text \<open>
  \<open>detectFileType\<close>: the body of the \<open>try\<close>, and the function with its \<open>catch\<close>. The
  result \<open>Inl\<close> stands for an exception that leaves the function.
\<close>

definition detectFileTypeTry ::
  "(string \<Rightarrow> exn + json) \<Rightarrow> (jsval \<Rightarrow> exn + string) \<Rightarrow> string \<Rightarrow> string \<Rightarrow> exn + FileTypeResult"
where
  "detectFileTypeTry parse conv content fileName =
     bindE (parse content) (\<lambda>data.
     bindE (isPostmanCollection data) (\<lambda>isCollection.
       if isCollection then
         bindE (getProp (J data) ''info'') (\<lambda>info.
         bindE (getProp info ''name'') (\<lambda>name.
         bindE (ToString conv name) (\<lambda>nameText.
           Inr \<lparr>ftr_type = Postman, ftr_confidence = 0.95,
                ftr_details = ''Postman collection detected - contains info.name: \"''
                              @ nameText @ ''\"''\<rparr>)))
       else
         bindE (isOpenAPISpec data) (\<lambda>isSpec.
           if isSpec then
             bindE (getProp (J data) ''openapi'') (\<lambda>openapi.
             bindE (getProp (J data) ''swagger'') (\<lambda>swagger.
             bindE (ToString conv (if truthyV openapi then openapi else swagger)) (\<lambda>version.
               Inr \<lparr>ftr_type = OpenAPI, ftr_confidence = 0.95,
                    ftr_details = ''OpenAPI specification detected - version: '' @ version\<rparr>)))
           else if isPostmanEnvironment parse content fileName then
             bindE (getProp (J data) ''name'') (\<lambda>name.
             bindE (ToString conv name) (\<lambda>nameText.
               Inr \<lparr>ftr_type = Environment, ftr_confidence = 0.95,
                    ftr_details = ''Postman environment detected - name: \"'' @ nameText @ ''\"''\<rparr>))
           else
             (let fileTypeFromName = detectFromFilename fileName in
              if fileTypeFromName \<noteq> Unknown then
                Inr \<lparr>ftr_type = fileTypeFromName, ftr_confidence = 0.6,
                     ftr_details = ''Detected from filename pattern. Please verify content is valid ''
                                   @ fileTypeName fileTypeFromName @ '' format.''\<rparr>
              else
                Inr \<lparr>ftr_type = Unknown, ftr_confidence = 0,
                     ftr_details = ''Valid JSON but does not match Postman collection or OpenAPI specification format''\<rparr>))))"

definition yamlUnsupported :: string where
  "yamlUnsupported = ''YAML files are not currently supported. Please convert to JSON format.''"

definition notValidJson :: "string \<Rightarrow> string" where
  "notValidJson m = ''File is not valid JSON and does not appear to be YAML: '' @ m"

definition detectFileType ::
  "(string \<Rightarrow> exn + json) \<Rightarrow> (jsval \<Rightarrow> exn + string) \<Rightarrow> string \<Rightarrow> string \<Rightarrow> exn + FileTypeResult"
where
  "detectFileType parse conv content fileName =
     (case detectFileTypeTry parse conv content fileName of
        Inr result \<Rightarrow> Inr result
      | Inl jsonError \<Rightarrow>
          if isLikelyYAML content fileName then
            Inr \<lparr>ftr_type = Unknown, ftr_confidence = 0, ftr_details = yamlUnsupported\<rparr>
          else
            Inr \<lparr>ftr_type = Unknown, ftr_confidence = 0,
                 ftr_details = notValidJson (message jsonError)\<rparr>)"

section \<open>The Postman parser\<close>

text \<open>
  What the parser builds from a document. The fields hold the values found in the
  document, of whatever type: the interface \<open>PostmanRequest\<close> declares strings, and the
  parser does not check. An identifier is the \<open>id\<close> of the item, or a text made of the
  method, the clock and a random number, of which the model keeps the method.
\<close>

datatype ident = GivenId json | GeneratedId string

record pbody =
  pb_mode :: json
  pb_raw :: "json option"
  pb_formdata :: "json list option"

record PostmanRequest =
  pr_id :: ident
  pr_name :: json
  pr_method :: string
  pr_url :: json
  pr_headers :: "(string \<times> json) list"
  pr_body :: "pbody option"
  pr_auth :: "json option"

record PostmanCollection =
  pc_name :: json
  pc_description :: jsval
  pc_requests :: "PostmanRequest list"
  pc_auth :: jsval

text \<open>The value of a truthy expression that came from the document.\<close>

fun jsonOf :: "jsval \<Rightarrow> json" where
  "jsonOf (J v) = v"
| "jsonOf v = JNull"

text \<open>
  \<open>v.join(sep)\<close>. Only an array has the method; on any other value the call throws.
  \<open>null\<close> elements give the empty text, the others their \<open>ToString\<close>.
\<close>

definition elemText :: "(jsval \<Rightarrow> exn + string) \<Rightarrow> json \<Rightarrow> exn + string" where
  "elemText conv x = (if x = JNull then Inr [] else ToString conv (J x))"

fun joinElems :: "(jsval \<Rightarrow> exn + string) \<Rightarrow> string \<Rightarrow> json list \<Rightarrow> exn + string" where
  "joinElems conv sep [] = Inr []"
| "joinElems conv sep [x] = elemText conv x"
| "joinElems conv sep (x # y # ys) =
     bindE (elemText conv x) (\<lambda>t.
     bindE (joinElems conv sep (y # ys)) (\<lambda>r. Inr (t @ sep @ r)))"

fun joinArray :: "(jsval \<Rightarrow> exn + string) \<Rightarrow> jsval \<Rightarrow> string \<Rightarrow> exn + string" where
  "joinArray conv (J (JArr xs)) sep = joinElems conv sep xs"
| "joinArray conv v sep = Inl (TypeError ''join is not a function'')"

text \<open>
  The URL of a request: a string as it is, else \<open>url.raw\<close> when truthy, else the text
  put together from \<open>protocol\<close>, \<open>host\<close>, \<open>port\<close> and \<open>path\<close>, else the empty string.
\<close>

definition extractUrl :: "(jsval \<Rightarrow> exn + string) \<Rightarrow> jsval \<Rightarrow> exn + json" where
  "extractUrl conv request =
     bindE (getProp request ''url'') (\<lambda>u.
       if typeof u = ''string'' then Inr (jsonOf u)
       else if \<not> truthyV u then Inr (JStr [])
       else
         bindE (getProp u ''raw'') (\<lambda>raw.
           if truthyV raw then Inr (jsonOf raw)
           else
             bindE (getProp u ''protocol'') (\<lambda>protocol.
             bindE (getProp u ''host'') (\<lambda>host.
               if truthyV protocol \<and> truthyV host then
                 bindE (ToString conv protocol) (\<lambda>protocolText.
                 bindE (joinArray conv host ''.'') (\<lambda>hostText.
                 bindE (getProp u ''port'') (\<lambda>port.
                 bindE (if truthyV port
                        then bindE (ToString conv port) (\<lambda>t. Inr ('':'' @ t))
                        else Inr []) (\<lambda>portText.
                 bindE (getProp u ''path'') (\<lambda>path.
                 bindE (if truthyV path
                        then bindE (joinArray conv path ''/'') (\<lambda>t. Inr (''/'' @ t))
                        else Inr []) (\<lambda>pathText.
                   Inr (JStr (protocolText @ ''://'' @ hostText @ portText @ pathText))))))))
               else Inr (JStr [])))))"

text \<open>
  \<open>headers[k] = v\<close> on the object that the parser fills, which starts as \<open>{}\<close>: assigning
  to \<open>__proto__\<close> creates no own property.
\<close>

definition setOwn :: "string \<Rightarrow> json \<Rightarrow> (string \<times> json) list \<Rightarrow> (string \<times> json) list" where
  "setOwn k v hs = (if k = ''__proto__'' then hs else AList.update k v hs)"

text \<open>The loop over \<open>request.header\<close>.\<close>

fun addHeaders ::
  "(jsval \<Rightarrow> exn + string) \<Rightarrow> json list \<Rightarrow> (string \<times> json) list \<Rightarrow> exn + (string \<times> json) list"
where
  "addHeaders conv [] hs = Inr hs"
| "addHeaders conv (header # rest) hs =
     bindE (getProp (J header) ''key'') (\<lambda>k.
     bindE (getProp (J header) ''value'') (\<lambda>v.
     bindE (getProp (J header) ''disabled'') (\<lambda>disabled.
       if truthyV k \<and> truthyV v \<and> \<not> truthyV disabled then
         bindE (ToString conv k) (\<lambda>name. addHeaders conv rest (setOwn name (jsonOf v) hs))
       else addHeaders conv rest hs)))"

text \<open>\<open>formdata.filter(item => !item.disabled)\<close>.\<close>

fun filterEnabled :: "json list \<Rightarrow> exn + json list" where
  "filterEnabled [] = Inr []"
| "filterEnabled (item # rest) =
     bindE (getProp (J item) ''disabled'') (\<lambda>disabled.
     bindE (filterEnabled rest) (\<lambda>kept.
       Inr (if truthyV disabled then kept else item # kept)))"

text \<open>\<open>(request.method || 'GET').toUpperCase()\<close>: a truthy method that is not a string
  has no such method, and the call throws.\<close>

definition extractMethod :: "jsval \<Rightarrow> exn + string" where
  "extractMethod request =
     bindE (getProp request ''method'') (\<lambda>m.
       if \<not> truthyV m then Inr ''GET''
       else if typeof m = ''string'' then Inr (toUpperCase (stringOf m))
       else Inl (TypeError ''toUpperCase is not a function''))"

definition extractBody :: "jsval \<Rightarrow> exn + pbody option" where
  "extractBody request =
     bindE (getProp request ''body'') (\<lambda>b.
       if \<not> truthyV b then Inr None
       else
         bindE (getProp b ''mode'') (\<lambda>mode.
         bindE (getProp b ''raw'') (\<lambda>raw.
         bindE (getProp b ''formdata'') (\<lambda>formdata.
         bindE (if truthyV formdata \<and> isArray formdata
                then bindE (filterEnabled (map snd (objectEntries formdata)))
                       (\<lambda>kept. Inr (Some kept))
                else Inr None) (\<lambda>form.
           Inr (Some \<lparr>pb_mode = (if truthyV mode then jsonOf mode else JStr ''raw''),
                      pb_raw = (if truthyV raw then Some (jsonOf raw) else None),
                      pb_formdata = form\<rparr>))))))"

text \<open>
  \<open>parsePostmanRequest\<close>: the body of the \<open>try\<close>, and the function, whose \<open>catch\<close> turns
  every exception into \<open>null\<close>.
\<close>

definition parsePostmanRequestTry ::
  "(jsval \<Rightarrow> exn + string) \<Rightarrow> json \<Rightarrow> exn + PostmanRequest option"
where
  "parsePostmanRequestTry conv item =
     bindE (getProp (J item) ''request'') (\<lambda>request.
       if \<not> truthyV request then Inr None
       else
         bindE (extractUrl conv request) (\<lambda>url.
         bindE (getProp request ''header'') (\<lambda>header.
         bindE (if truthyV header \<and> isArray header
                then addHeaders conv (map snd (objectEntries header)) []
                else Inr []) (\<lambda>headers.
         bindE (extractMethod request) (\<lambda>method.
         bindE (getProp (J item) ''id'') (\<lambda>itemId.
         bindE (getProp (J item) ''name'') (\<lambda>itemName.
         bindE (if truthyV itemName then Inr (jsonOf itemName)
                else bindE (ToString conv (J url)) (\<lambda>urlText.
                       Inr (JStr (method @ '' '' @ urlText)))) (\<lambda>name.
         bindE (extractBody request) (\<lambda>body.
         bindE (getProp request ''auth'') (\<lambda>auth.
           Inr (Some \<lparr>pr_id = (if truthyV itemId then GivenId (jsonOf itemId)
                               else GeneratedId method),
                      pr_name = name,
                      pr_method = method,
                      pr_url = url,
                      pr_headers = headers,
                      pr_body = body,
                      pr_auth = (if truthyV auth then Some (jsonOf auth) else None)\<rparr>)))))))))))"

definition parsePostmanRequest :: "(jsval \<Rightarrow> exn + string) \<Rightarrow> json \<Rightarrow> PostmanRequest option" where
  "parsePostmanRequest conv item =
     (case parsePostmanRequestTry conv item of
        Inr r \<Rightarrow> r
      | Inl e \<Rightarrow> None)"

text \<open>
  \<open>for (const item of items)\<close>: an array gives its elements and a string its characters;
  any other value is not iterable.
\<close>

fun iterate :: "jsval \<Rightarrow> exn + json list" where
  "iterate (J (JArr xs)) = Inr xs"
| "iterate (J (JStr s)) = Inr (map (\<lambda>c. JStr [c]) s)"
| "iterate v = Inl (TypeError ''object is not iterable'')"

text \<open>
  A measure for the recursion through folders: the items of a folder weigh less than
  the folder.
\<close>

fun weight :: "json \<Rightarrow> nat" where
  "weight (JStr s) = length s - 1"
| "weight (JArr xs) = sum_list (map (\<lambda>x. Suc (weight x)) xs)"
| "weight (JObj ps) = Suc (sum_list (map (\<lambda>p. weight (snd p)) ps))"
| "weight v = 0"

lemma bindE_cong [fundef_cong]:
  "m = m' \<Longrightarrow> (\<And>x. m' = Inr x \<Longrightarrow> f x = f' x) \<Longrightarrow> bindE m f = bindE m' f'"
  by (cases m') (simp_all add: bindE_def)

lemma weight_lookup: "map_of ps k = Some v \<Longrightarrow> weight v \<le> sum_list (map (\<lambda>p. weight (snd p)) ps)"
  by (induction ps) (auto split: if_splits)

lemma weight_characters:
  "sum_list (map (\<lambda>x. Suc (weight x)) (map (\<lambda>c. JStr [c]) s)) = length s"
  by (induction s) simp_all

lemma weight_items:
  assumes "getProp (J item) ''item'' = Inr sub" and "truthyV sub" and "iterate sub = Inr subitems"
  shows "sum_list (map (\<lambda>x. Suc (weight x)) subitems) < Suc (weight item)"
proof (cases item)
  case (JObj ps)
  with assms(1) have l: "sub = lookupV ps ''item''" by simp
  show ?thesis
  proof (cases "map_of ps ''item''")
    case None
    with l assms(2) show ?thesis by (simp add: lookupV_def)
  next
    case (Some v)
    with l have sub: "sub = J v" by (simp add: lookupV_def)
    from weight_lookup[OF Some] have le: "weight v < weight item" using JObj by simp
    show ?thesis
    proof (cases v)
      case (JArr xs)
      with assms(3) sub le show ?thesis by simp
    next
      case (JStr s)
      with assms(2,3) sub le weight_characters[of s] show ?thesis
        by (cases s) auto
    qed (use assms(3) sub in simp_all)
  qed
qed (use assms in \<open>auto simp: element_def arrayIndex_def isDigit_def\<close>)

text \<open>\<open>extractPostmanRequests\<close>, on the items that the iteration gives.\<close>

function extractPostmanRequests ::
  "(jsval \<Rightarrow> exn + string) \<Rightarrow> json list \<Rightarrow> exn + PostmanRequest list"
where
  "extractPostmanRequests conv [] = Inr []"
| "extractPostmanRequests conv (item # rest) =
     bindE (getProp (J item) ''request'') (\<lambda>request.
       if truthyV request then
         (case parsePostmanRequest conv item of
            Some r \<Rightarrow> bindE (extractPostmanRequests conv rest) (\<lambda>requests. Inr (r # requests))
          | None \<Rightarrow> extractPostmanRequests conv rest)
       else
         bindE (getProp (J item) ''item'') (\<lambda>sub.
           if truthyV sub then
             bindE (iterate sub) (\<lambda>subitems.
             bindE (extractPostmanRequests conv subitems) (\<lambda>folderRequests.
             bindE (extractPostmanRequests conv rest) (\<lambda>requests.
               Inr (folderRequests @ requests))))
           else extractPostmanRequests conv rest))"
  by pat_completeness auto
termination
proof (relation "measure (\<lambda>(conv, items). sum_list (map (\<lambda>x. Suc (weight x)) items))")
  show "wf (measure (\<lambda>(conv, items). sum_list (map (\<lambda>x. Suc (weight x)) items)))" by simp
qed (auto dest: weight_items)

text \<open>
  \<open>parsePostmanCollection\<close>: the body of the \<open>try\<close>, and the function, whose \<open>catch\<close>
  throws a new error with the message of the one caught.
\<close>

definition parsePostmanCollectionTry ::
  "(string \<Rightarrow> exn + json) \<Rightarrow> (jsval \<Rightarrow> exn + string) \<Rightarrow> string \<Rightarrow> exn + PostmanCollection"
where
  "parsePostmanCollectionTry parse conv content =
     bindE (parse content) (\<lambda>data.
     bindE (getProp (J data) ''info'') (\<lambda>info.
       if \<not> truthyV info then Inl (Error ''Invalid Postman collection: missing info.name'')
       else
         bindE (getProp info ''name'') (\<lambda>name.
           if \<not> truthyV name then Inl (Error ''Invalid Postman collection: missing info.name'')
           else
             bindE (getProp info ''description'') (\<lambda>description.
             bindE (getProp (J data) ''auth'') (\<lambda>auth.
             bindE (getProp (J data) ''item'') (\<lambda>item.
             bindE (if truthyV item then iterate item else Inr []) (\<lambda>items.
             bindE (extractPostmanRequests conv items) (\<lambda>requests.
               Inr \<lparr>pc_name = jsonOf name, pc_description = description,
                    pc_requests = requests, pc_auth = auth\<rparr>))))))))"

definition parsePostmanCollection ::
  "(string \<Rightarrow> exn + json) \<Rightarrow> (jsval \<Rightarrow> exn + string) \<Rightarrow> string \<Rightarrow> exn + PostmanCollection"
where
  "parsePostmanCollection parse conv content =
     (case parsePostmanCollectionTry parse conv content of
        Inr collection \<Rightarrow> Inr collection
      | Inl error \<Rightarrow> Inl (Error (''Failed to parse Postman collection: '' @ message error)))"

section \<open>Schema examples\<close>

text \<open>
  An example value: a value of the document (an explicit \<open>example\<close>, an \<open>enum\<close> member, a
  \<open>minimum\<close>) or one of the literals of the generator, \<open>undefined\<close>, an array built by the
  generator, or an object built by it.
\<close>

datatype ex = ExUndefined | ExJson json | ExArr "ex list" | ExObj "(string \<times> ex) list"

text \<open>
  The two recursive functions take a bound on the depth of their recursion, the number
  of calls of the two functions that are nested in one another. A call either exceeds
  the bound, throws, or returns. An engine puts such a bound on its call stack: there a
  call that exceeds it ends with the \<open>RangeError\<close> \<open>Maximum call stack size exceeded\<close>,
  which neither function catches.
\<close>

datatype 'a outcome = OutOfFuel | Throws exn | Returns 'a

text \<open>Sequencing: the second step runs on what the first returns.\<close>

definition bindO :: "'a outcome \<Rightarrow> ('a \<Rightarrow> 'b outcome) \<Rightarrow> 'b outcome" where
  "bindO x f = (case x of OutOfFuel \<Rightarrow> OutOfFuel | Throws e \<Rightarrow> Throws e | Returns a \<Rightarrow> f a)"

text \<open>
  A function of the bound settles when from some bound on it has one and the same
  outcome, and this is not \<open>OutOfFuel\<close>: the recursion of the call is no deeper than
  that bound, and the call returns or throws.
\<close>

definition settles :: "(nat \<Rightarrow> 'a outcome) \<Rightarrow> bool" where
  "settles f = (\<exists>n r. r \<noteq> OutOfFuel \<and> (\<forall>m\<ge>n. f m = r))"

text \<open>A value that is truthy and of type \<open>object\<close>.\<close>

fun isObject :: "json \<Rightarrow> bool" where
  "isObject (JObj ps) = True"
| "isObject (JArr xs) = True"
| "isObject v = False"

text \<open>A property read on a value that is neither \<open>null\<close> nor \<open>undefined\<close>.\<close>

definition propV :: "jsval \<Rightarrow> string \<Rightarrow> jsval" where
  "propV v k = (case getProp v k of Inr r \<Rightarrow> r | Inl e \<Rightarrow> Undefined)"

definition propOf :: "json \<Rightarrow> string \<Rightarrow> jsval" where
  "propOf v k = propV (J v) k"

text \<open>
  \<open>segment in current\<close> on an object or an array, for its own properties. A name that is
  found by inheritance only (a method, \<open>__proto__\<close>) is taken as absent: the source then
  goes on with a function or a prototype object and ends with the example \<open>null\<close>, as it
  does for an absent name.
\<close>

fun hasOwn :: "json \<Rightarrow> string \<Rightarrow> bool" where
  "hasOwn (JObj ps) k = (k \<in> fst ` set ps)"
| "hasOwn (JArr xs) k =
     (k = ''length'' \<or> (case arrayIndex k of Some i \<Rightarrow> i < length xs | None \<Rightarrow> False))"
| "hasOwn v k = False"

text \<open>The loop of \<open>resolveSchemaRef\<close> over the segments of the path; \<open>JNull\<close> is \<open>null\<close>.\<close>

fun walkPath :: "json \<Rightarrow> string list \<Rightarrow> json" where
  "walkPath current [] = current"
| "walkPath current (segment # path) =
     (if isObject current \<and> hasOwn current segment
      then walkPath (jsonOf (propOf current segment)) path
      else JNull)"

definition circularPlaceholder :: "string \<Rightarrow> json" where
  "circularPlaceholder r =
     JObj [(''type'', JStr ''object''), (''description'', JStr (''Circular reference to '' @ r))]"

fun refString :: "jsval \<Rightarrow> string option" where
  "refString (J (JStr r)) = Some r"
| "refString v = None"

text \<open>
  \<open>resolveSchemaRef\<close>. The set \<open>visited\<close> is the copy that the caller made, so the
  additions to it are not seen outside. A reference that is not a string has no method
  \<open>startsWith\<close>, and the call throws.
\<close>

fun resolveSchemaRef :: "nat \<Rightarrow> json \<Rightarrow> string list \<Rightarrow> jsval \<Rightarrow> json outcome" where
  "resolveSchemaRef 0 spec visited ref = OutOfFuel"
| "resolveSchemaRef (Suc n) spec visited ref =
     (case refString ref of
        None \<Rightarrow> Throws (TypeError ''ref.startsWith is not a function'')
      | Some r \<Rightarrow>
          if r \<in> set visited then Returns (circularPlaceholder r)
          else if \<not> startsWith r ''#/'' then Returns JNull
          else
            (let current = walkPath spec (split (drop 2 r) ''/'') in
             if isObject current \<and> truthyV (propOf current ''$ref'')
             then resolveSchemaRef n spec (r # visited) (propOf current ''$ref'')
             else Returns current))"

fun exOf :: "jsval \<Rightarrow> ex" where
  "exOf (J v) = ExJson v"
| "exOf v = ExUndefined"

text \<open>
  \<open>v > 0\<close>. The language fixes the answer for a number, \<open>undefined\<close>, \<open>null\<close> and a boolean;
  for the other values it depends on the host's conversion to a number, a parameter of
  the model.
\<close>

definition greaterZero :: "(jsval \<Rightarrow> bool) \<Rightarrow> jsval \<Rightarrow> bool" where
  "greaterZero pos v =
     (case v of
        Undefined \<Rightarrow> False
      | J JNull \<Rightarrow> False
      | J (JBool b) \<Rightarrow> b
      | J (JNum x) \<Rightarrow> x > 0
      | _ \<Rightarrow> pos v)"

text \<open>\<open>schema.enum && schema.enum.length > 0\<close>.\<close>

definition hasEnum :: "(jsval \<Rightarrow> bool) \<Rightarrow> json \<Rightarrow> bool" where
  "hasEnum pos schema =
     (truthyV (propOf schema ''enum'') \<and> greaterZero pos (propV (propOf schema ''enum'') ''length''))"

definition enumFirst :: "json \<Rightarrow> ex" where
  "enumFirst schema = exOf (propV (propOf schema ''enum'') ''0'')"

definition stringExample :: "(jsval \<Rightarrow> bool) \<Rightarrow> json \<Rightarrow> ex" where
  "stringExample pos schema =
     (if hasEnum pos schema then enumFirst schema
      else if propOf schema ''format'' = J (JStr ''email'') then ExJson (JStr ''user@example.com'')
      else if propOf schema ''format'' = J (JStr ''date'') then ExJson (JStr ''2024-01-01'')
      else if propOf schema ''format'' = J (JStr ''date-time'')
        then ExJson (JStr ''2024-01-01T00:00:00Z'')
      else if propOf schema ''format'' = J (JStr ''uuid'')
        then ExJson (JStr ''550e8400-e29b-41d4-a716-446655440000'')
      else if truthyV (propOf schema ''pattern'') then ExJson (JStr ''example'')
      else ExJson (JStr ''string''))"

definition numberExample :: "(jsval \<Rightarrow> bool) \<Rightarrow> json \<Rightarrow> ex" where
  "numberExample pos schema =
     (if hasEnum pos schema then enumFirst schema
      else if propOf schema ''minimum'' \<noteq> Undefined then exOf (propOf schema ''minimum'')
      else ExJson (JNum 0))"

text \<open>
  \<open>obj[k] = v\<close> on the object that the generator fills, which starts as \<open>{}\<close>: assigning
  to \<open>__proto__\<close> creates no own property. (When \<open>v\<close> is an object, the assignment
  replaces the prototype of \<open>obj\<close>; the model does not follow that.)
\<close>

definition setEx :: "string \<Rightarrow> ex \<Rightarrow> (string \<times> ex) list \<Rightarrow> (string \<times> ex) list" where
  "setEx k v obj = (if k = ''__proto__'' then obj else AList.update k v obj)"

text \<open>
  The loop over \<open>Object.entries(schema.properties)\<close>. The first argument is the
  generator for the property schemas.
\<close>

fun loopProperties ::
  "(json \<Rightarrow> string list \<Rightarrow> (ex \<times> string list) outcome) \<Rightarrow> (string \<times> json) list \<Rightarrow>
   (string \<times> ex) list \<Rightarrow> string list \<Rightarrow> ((string \<times> ex) list \<times> string list) outcome"
where
  "loopProperties g [] obj visited = Returns (obj, visited)"
| "loopProperties g (entry # rest) obj visited =
     bindO (g (snd entry) visited) (\<lambda>res.
       loopProperties g rest
         (if fst res \<noteq> ExJson JNull then setEx (fst entry) (fst res) obj else obj)
         (snd res))"

text \<open>
  The loop over \<open>schema.required\<close>. \<open>requiredProp in obj\<close> holds for the own properties of
  \<open>obj\<close> and for the names that every object inherits, which are a parameter of the
  model. The name of the property is the \<open>ToString\<close> of the array element.
\<close>

fun loopRequired ::
  "(json \<Rightarrow> string list \<Rightarrow> (ex \<times> string list) outcome) \<Rightarrow> (jsval \<Rightarrow> exn + string) \<Rightarrow>
   (string \<Rightarrow> bool) \<Rightarrow> jsval \<Rightarrow> json list \<Rightarrow>
   (string \<times> ex) list \<Rightarrow> string list \<Rightarrow> ((string \<times> ex) list \<times> string list) outcome"
where
  "loopRequired g conv inherited properties [] obj visited = Returns (obj, visited)"
| "loopRequired g conv inherited properties (requiredProp # rest) obj visited =
     (case ToString conv (J requiredProp) of
        Inl e \<Rightarrow> Throws e
      | Inr name \<Rightarrow>
          if \<not> (name \<in> fst ` set obj \<or> inherited name) \<and> truthyV properties \<and>
             truthyV (propV properties name)
          then
            bindO (g (jsonOf (propV properties name)) visited) (\<lambda>res.
              loopRequired g conv inherited properties rest
                (setEx name (if fst res \<noteq> ExJson JNull then fst res
                             else ExJson (JStr ''required_value'')) obj)
                (snd res))
          else loopRequired g conv inherited properties rest obj visited)"

text \<open>
  \<open>generateExampleFromSchema\<close>. The set \<open>visited\<close> is one object shared by all the calls
  below a top-level call, so a call returns it with the example; \<open>resolveSchemaRef\<close>
  gets a copy. The first argument bounds the depth of the recursion.
\<close>

fun generateExampleFromSchema ::
  "nat \<Rightarrow> (jsval \<Rightarrow> exn + string) \<Rightarrow> (jsval \<Rightarrow> bool) \<Rightarrow> (string \<Rightarrow> bool) \<Rightarrow>
   json \<Rightarrow> json \<Rightarrow> string list \<Rightarrow> (ex \<times> string list) outcome"
where
  "generateExampleFromSchema 0 conv pos inherited spec schema visited = OutOfFuel"
| "generateExampleFromSchema (Suc n) conv pos inherited spec schema visited =
     (if \<not> isObject schema then Returns (ExJson JNull, visited)
      else if truthyV (propOf schema ''$ref'') then
        (if (case refString (propOf schema ''$ref'') of Some r \<Rightarrow> r \<in> set visited | None \<Rightarrow> False)
         then Returns (ExJson JNull, visited)
         else
           bindO (resolveSchemaRef n spec visited (propOf schema ''$ref'')) (\<lambda>resolvedSchema.
             if truthyV (J resolvedSchema) then
               generateExampleFromSchema n conv pos inherited spec resolvedSchema
                 (stringOf (propOf schema ''$ref'') # visited)
             else Returns (ExJson JNull, visited)))
      else if propOf schema ''example'' \<noteq> Undefined then
        Returns (exOf (propOf schema ''example''), visited)
      else if propOf schema ''type'' = J (JStr ''string'') then
        Returns (stringExample pos schema, visited)
      else if propOf schema ''type'' = J (JStr ''number'') \<or>
              propOf schema ''type'' = J (JStr ''integer'') then
        Returns (numberExample pos schema, visited)
      else if propOf schema ''type'' = J (JStr ''boolean'') then
        Returns (ExJson (JBool True), visited)
      else if propOf schema ''type'' = J (JStr ''array'') then
        (if truthyV (propOf schema ''items'') then
           bindO (generateExampleFromSchema n conv pos inherited spec
                    (jsonOf (propOf schema ''items'')) visited) (\<lambda>res.
             Returns (if fst res \<noteq> ExJson JNull then ExArr [fst res] else ExArr [], snd res))
         else Returns (ExArr [], visited))
      else if propOf schema ''type'' = J (JStr ''object'') then
        bindO (if truthyV (propOf schema ''properties'')
               then loopProperties (generateExampleFromSchema n conv pos inherited spec)
                      (objectEntries (propOf schema ''properties'')) [] visited
               else Returns ([], visited)) (\<lambda>res1.
        bindO (if truthyV (propOf schema ''required'') \<and> isArray (propOf schema ''required'')
               then loopRequired (generateExampleFromSchema n conv pos inherited spec)
                      conv inherited (propOf schema ''properties'')
                      (map snd (objectEntries (propOf schema ''required'')))
                      (fst res1) (snd res1)
               else Returns res1) (\<lambda>res2.
          Returns (if fst res2 \<noteq> [] then ExObj (fst res2) else ExJson JNull, snd res2)))
      else Returns (ExJson JNull, visited))"

text \<open>
  The references of a document: the strings that are the \<open>$ref\<close> of an object in it.
  They are finitely many, and they bound what the set \<open>visited\<close> can take up.
\<close>

fun allRefs :: "json \<Rightarrow> string set" where
  "allRefs (JObj ps) =
     (case map_of ps ''$ref'' of Some (JStr r) \<Rightarrow> {r} | _ \<Rightarrow> {}) \<union> (\<Union>p\<in>set ps. allRefs (snd p))"
| "allRefs (JArr xs) = (\<Union>x\<in>set xs. allRefs x)"
| "allRefs v = {}"

text \<open>
  A part of a value: an object or array that is smaller and has its references among
  those of the value, or a value that is no object or array at all.
\<close>

definition part :: "json \<Rightarrow> json \<Rightarrow> bool" where
  "part c v = (isObject c \<longrightarrow> allRefs c \<subseteq> allRefs v \<and> size c < size v)"

text \<open>The reference that a value is, when it is a string.\<close>

definition refOf :: "jsval \<Rightarrow> string set" where
  "refOf ref = (case refString ref of Some r \<Rightarrow> {r} | None \<Rightarrow> {})"


section \<open>Sample data\<close>

text \<open>A store with one header object, a request that refers to it, and two configurations.\<close>

definition sampleStore :: store where
  "sampleStore = [[(''X-API-Key'', ''K''), (''Accept'', ''text/plain'')]]"

definition sampleRequest :: "ref request" where
  "sampleRequest = \<lparr>req_id = ''1'', req_name = ''A'', req_method = ''GET'',
     req_url = ''https://a.com/x'', req_headers = 0, req_body = None\<rparr>"

definition bearerT1 :: AuthConfig where
  "bearerT1 = \<lparr>auth_type = ''bearer'', auth_key = None, auth_value = None,
     auth_token = Some ''T1'', auth_username = None, auth_password = None,
     auth_header = None, auth_hostname = None\<rparr>"

definition bearerEmpty :: AuthConfig where
  "bearerEmpty = \<lparr>auth_type = ''bearer'', auth_key = None, auth_value = None,
     auth_token = Some [], auth_username = None, auth_password = None,
     auth_header = None, auth_hostname = None\<rparr>"


text \<open>
  Sample texts with the documents that \<open>JSON.parse\<close> returns for them, and a stand-in
  for \<open>JSON.parse\<close> that knows these texts and rejects every other text with the message
  that V8 gives for a text that does not start a JSON value.
\<close>

definition collectionText :: string where
  "collectionText =
     ''{\"info\":{\"name\":\"X\"},\"item\":[{\"name\":\"A\",\"request\":{\"method\":\"get\",\"url\":\"https://a.com/x?q=1\"}}]}''"

definition collectionDoc :: json where
  "collectionDoc =
     JObj [(''info'', JObj [(''name'', JStr ''X'')]),
           (''item'', JArr [JObj [(''name'', JStr ''A''),
                                  (''request'', JObj [(''method'', JStr ''get''),
                                                      (''url'', JStr ''https://a.com/x?q=1'')])]])]"

definition environmentText :: string where
  "environmentText =
     ''{\"name\":\"Dev\",\"values\":[{\"key\":\"api_token\",\"value\":\"abcdef0123456789ABCDEF01\"}],\"_postman_variable_scope\":\"environment\"}''"

definition environmentDoc :: json where
  "environmentDoc =
     JObj [(''name'', JStr ''Dev''),
           (''values'', JArr [JObj [(''key'', JStr ''api_token''),
                                    (''value'', JStr ''abcdef0123456789ABCDEF01'')]]),
           (''_postman_variable_scope'', JStr ''environment'')]"

definition unnamedEnvironmentText :: string where
  "unnamedEnvironmentText =
     ''{\"name\":\"\",\"values\":[],\"_postman_variable_scope\":\"environment\"}''"

definition unnamedEnvironmentDoc :: json where
  "unnamedEnvironmentDoc =
     JObj [(''name'', JStr []), (''values'', JArr []),
           (''_postman_variable_scope'', JStr ''environment'')]"

definition sampleParse :: "string \<Rightarrow> exn + json" where
  "sampleParse content =
     (if content = collectionText then Inr collectionDoc
      else if content = environmentText then Inr environmentDoc
      else if content = unnamedEnvironmentText then Inr unnamedEnvironmentDoc
      else Inl (SyntaxError (''Unexpected token '' @ [CHR 0x27] @ take 1 content @ [CHR 0x27]
                             @ '', \"'' @ content @ ''\" is not valid JSON'')))"

text \<open>A stand-in for the host's conversion of numbers, arrays, objects and functions.\<close>

definition sampleConv :: "jsval \<Rightarrow> exn + string" where
  "sampleConv v = Inr ''[object Object]''"

text \<open>
  A document with a schema that refers to itself through a property, and with two
  schemas that refer to each other; stand-ins for the host's \<open>v > 0\<close> and for the names
  that every object inherits.
\<close>

definition cyclicSpec :: json where
  "cyclicSpec =
     JObj [(''components'', JObj [(''schemas'', JObj
        [(''Node'', JObj [(''type'', JStr ''object''),
                          (''properties'', JObj [(''label'', JObj [(''type'', JStr ''string'')]),
                                                 (''next'', JObj [(''$ref'', JStr ''#/components/schemas/Node'')])]),
                          (''required'', JArr [JStr ''label'', JStr ''next''])]),
         (''A'', JObj [(''$ref'', JStr ''#/components/schemas/B'')]),
         (''B'', JObj [(''$ref'', JStr ''#/components/schemas/A'')])])])]"

definition samplePositive :: "jsval \<Rightarrow> bool" where
  "samplePositive v = False"

definition sampleInherited :: "string \<Rightarrow> bool" where
  "sampleInherited k =
     (k \<in> set [''constructor'', ''hasOwnProperty'', ''isPrototypeOf'', ''propertyIsEnumerable'',
                ''toLocaleString'', ''toString'', ''valueOf'', ''__proto__''])"

text \<open>
  A schema without any reference: \<open>n\<close> array schemas nested in one another around a
  string schema. The document \<open>deepSpec n\<close> holds it under \<open>components.schemas.Deep\<close>.
\<close>

fun nest :: "nat \<Rightarrow> json" where
  "nest 0 = JObj [(''type'', JStr ''string'')]"
| "nest (Suc n) = JObj [(''type'', JStr ''array''), (''items'', nest n)]"

definition deepSpec :: "nat \<Rightarrow> json" where
  "deepSpec n = JObj [(''components'', JObj [(''schemas'', JObj [(''Deep'', nest n)])])]"

section \<open>Session names: the suffix \<open>?x=1#y\<close>\<close>

text \<open>
  Appending \<open>?x=1#y\<close> to a URL changes none of the tests of \<open>generateCompleteSessionName\<close>
  and leaves the path before the last step as it was, as long as the first case finds
  some text after \<open>://\<close>.
\<close>

lemma prefix_sep_qf: "prefix ''://'' (v @ ''?x=1#y'') = prefix ''://'' v"
  by (auto simp: prefix_append append_eq_Cons_conv Cons_eq_append_conv)

lemma prefix_tpl_qf: "prefix ''}}'' (v @ ''?x=1#y'') = prefix ''}}'' v"
  by (auto simp: prefix_append append_eq_Cons_conv Cons_eq_append_conv)

lemma includes_sep_qf: "includesStr (u @ ''?x=1#y'') ''://'' = includesStr u ''://''"
proof (induction u)
  case Nil
  show ?case by simp
next
  case (Cons c cs)
  have "prefix ''://'' ((c # cs) @ ''?x=1#y'') = prefix ''://'' (c # cs)"
    by (rule prefix_sep_qf)
  with Cons show ?case by simp
qed

lemma includes_tpl_qf: "includesStr (u @ ''?x=1#y'') ''}}'' = includesStr u ''}}''"
proof (induction u)
  case Nil
  show ?case by simp
next
  case (Cons c cs)
  have "prefix ''}}'' ((c # cs) @ ''?x=1#y'') = prefix ''}}'' (c # cs)"
    by (rule prefix_tpl_qf)
  with Cons show ?case by simp
qed

lemma split_nonempty: "split s sep \<noteq> []"
  by (induction s sep rule: split.induct) (auto split: list.splits)

lemma split_Cons_match:
  "prefix sep (c # cs) \<Longrightarrow> split (c # cs) sep = [] # split (drop (length sep - 1) cs) sep"
  by simp

lemma split_Cons_nomatch:
  "\<not> prefix sep (c # cs) \<Longrightarrow>
   split (c # cs) sep = (case split cs sep of p # ps \<Rightarrow> (c # p) # ps | [] \<Rightarrow> [[c]])"
  by simp

lemma split_sep_qf:
  "split (u @ ''?x=1#y'') ''://'' =
     butlast (split u ''://'') @ [last (split u ''://'') @ ''?x=1#y'']"
proof (induction u "''://''" rule: split.induct)
  case 1
  show ?case by simp
next
  case (2 c cs)
  have pq: "prefix ''://'' (c # (cs @ ''?x=1#y'')) = prefix ''://'' (c # cs)"
    using prefix_sep_qf[of "c # cs"] by simp
  show ?case
  proof (cases "prefix ''://'' (c # cs)")
    case True
    then have len: "2 \<le> length cs" by (auto simp: prefix_def)
    have d: "drop (length ''://'' - 1) (cs @ ''?x=1#y'') = drop (length ''://'' - 1) cs @ ''?x=1#y''"
      using len by simp
    have ih: "split (drop (length ''://'' - 1) cs @ ''?x=1#y'') ''://'' =
        butlast (split (drop (length ''://'' - 1) cs) ''://'') @
        [last (split (drop (length ''://'' - 1) cs) ''://'') @ ''?x=1#y'']"
      using 2(1)[OF True] .
    have l: "split ((c # cs) @ ''?x=1#y'') ''://'' =
        [] # split (drop (length ''://'' - 1) cs @ ''?x=1#y'') ''://''"
    proof -
      have p': "prefix ''://'' (c # (cs @ ''?x=1#y''))" unfolding pq by (rule True)
      show ?thesis unfolding append_Cons using split_Cons_match[OF p'] unfolding d .
    qed
    have r: "split (c # cs) ''://'' = [] # split (drop (length ''://'' - 1) cs) ''://''"
      using split_Cons_match[OF True] .
    show ?thesis unfolding l r ih
      using split_nonempty[of "drop (length ''://'' - 1) cs" "''://''"] by simp
  next
    case False
    have ih: "split (cs @ ''?x=1#y'') ''://'' =
        butlast (split cs ''://'') @ [last (split cs ''://'') @ ''?x=1#y'']"
      using 2(2)[OF False] .
    obtain y ys where Y: "split cs ''://'' = y # ys"
      using split_nonempty[of cs "''://''"] by (cases "split cs ''://''") auto
    have l: "split ((c # cs) @ ''?x=1#y'') ''://'' =
       (case split (cs @ ''?x=1#y'') ''://'' of p # ps \<Rightarrow> (c # p) # ps | [] \<Rightarrow> [[c]])"
    proof -
      have np: "\<not> prefix ''://'' (c # (cs @ ''?x=1#y''))" unfolding pq by (rule False)
      show ?thesis unfolding append_Cons by (rule split_Cons_nomatch[OF np])
    qed
    have r: "split (c # cs) ''://'' = (c # y) # ys"
      unfolding split_Cons_nomatch[OF False] Y by simp
    show ?thesis unfolding l r ih Y by (cases ys) auto
  qed
qed


lemma includes_single: "includesStr s [c] = (c \<in> set s)"
  by (induction s) auto

lemma split_single: "\<exists>ps. split s [c] = takeWhile (\<lambda>d. d \<noteq> c) s # ps"
proof (induction s)
  case Nil
  show ?case by simp
next
  case (Cons a s)
  then obtain ps where "split s [c] = takeWhile (\<lambda>d. d \<noteq> c) s # ps" by blast
  then show ?case by auto
qed

lemma cutAt_path:
  assumes "c \<noteq> CHR ''/''"
  shows "cutAt (CHR ''/'' # p) [c] = takeWhile (\<lambda>d. d \<noteq> c) (CHR ''/'' # p)"
proof (cases "c \<in> set (CHR ''/'' # p)")
  case True
  obtain ps where "split (CHR ''/'' # p) [c] = takeWhile (\<lambda>d. d \<noteq> c) (CHR ''/'' # p) # ps"
    using split_single by blast
  with True assms show ?thesis
    unfolding cutAt_def includes_single by simp
next
  case False
  then have "takeWhile (\<lambda>d. d \<noteq> c) (CHR ''/'' # p) = CHR ''/'' # p"
    unfolding takeWhile_eq_all_conv by auto
  with False show ?thesis unfolding cutAt_def includes_single by simp
qed

lemma takeWhile_query_qf:
  "takeWhile (\<lambda>d. d \<noteq> CHR ''?'') (p @ ''?x=1#y'') = takeWhile (\<lambda>d. d \<noteq> CHR ''?'') p"
  by (induction p) auto

lemma cutAt_query_qf:
  "cutAt ((CHR ''/'' # p) @ ''?x=1#y'') ''?'' = cutAt (CHR ''/'' # p) ''?''"
proof -
  have "cutAt (CHR ''/'' # (p @ ''?x=1#y'')) ''?'' =
        takeWhile (\<lambda>d. d \<noteq> CHR ''?'') (CHR ''/'' # (p @ ''?x=1#y''))"
    by (rule cutAt_path) simp
  moreover have "cutAt (CHR ''/'' # p) ''?'' = takeWhile (\<lambda>d. d \<noteq> CHR ''?'') (CHR ''/'' # p)"
    by (rule cutAt_path) simp
  ultimately show ?thesis
    using takeWhile_query_qf[of "CHR ''/'' # p"] by simp
qed

lemma lastIndexOf_tpl_qf: "lastIndexOf (u @ ''?x=1#y'') ''}}'' = lastIndexOf u ''}}''"
proof (induction u)
  case Nil
  show ?case by simp
next
  case (Cons c cs)
  have pq: "prefix ''}}'' (c # (cs @ ''?x=1#y'')) = prefix ''}}'' (c # cs)"
    using prefix_tpl_qf[of "c # cs"] by simp
  show ?case by (simp only: append_Cons lastIndexOf.simps Cons pq)
qed

lemma lastIndexOf_bound: "lastIndexOf s sub = Some i \<Longrightarrow> i + length sub \<le> length s"
proof (induction s arbitrary: i)
  case Nil
  then show ?case by (simp split: if_splits)
next
  case (Cons c cs)
  then show ?case
    by (auto split: option.splits if_splits dest: prefix_length_le)
qed

lemma indexOf_slash_qf: "indexOf (a @ ''?x=1#y'') ''/'' = indexOf a ''/''"
  by (induction a) auto

lemma indexOf_slash_drop:
  "indexOf a ''/'' = Some i \<Longrightarrow> i < length a \<and> (\<exists>p. drop i a = CHR ''/'' # p)"
proof (induction a arbitrary: i)
  case Nil
  then show ?case by simp
next
  case (Cons c cs)
  show ?case
  proof (cases "c = CHR ''/''")
    case True
    with Cons.prems show ?thesis by simp
  next
    case False
    with Cons.prems obtain j where "indexOf cs ''/'' = Some j" "i = Suc j" by auto
    with Cons.IH[of j] show ?thesis by simp
  qed
qed

lemma urlToPath_qf:
  assumes "hasAfterProtocol u"
  shows "\<exists>p. urlToPath u = CHR ''/'' # p \<and>
             (urlToPath (u @ ''?x=1#y'') = urlToPath u \<or>
              urlToPath (u @ ''?x=1#y'') = urlToPath u @ ''?x=1#y'')"
proof -
  let ?s = "''?x=1#y''"
  consider (abs) "includesStr u ''://''"
    | (tpl) "\<not> includesStr u ''://''" "includesStr u ''}}''"
    | (root) "\<not> includesStr u ''://''" "\<not> includesStr u ''}}''" "startsWith u ''/''"
    | (bare) "\<not> includesStr u ''://''" "\<not> includesStr u ''}}''" "\<not> startsWith u ''/''"
    by blast
  then show ?thesis
  proof cases
    case abs
    let ?ps = "split u ''://''"
    from abs assms have len: "length ?ps > 1" and ne: "?ps ! Suc 0 \<noteq> []"
      unfolding hasAfterProtocol_def by auto
    have sp: "split (u @ ?s) ''://'' = butlast ?ps @ [last ?ps @ ?s]"
      by (rule split_sep_qf)
    have len': "length (split (u @ ?s) ''://'') > 1" using len unfolding sp by simp
    have el: "split (u @ ?s) ''://'' ! Suc 0 = ?ps ! Suc 0 \<or> split (u @ ?s) ''://'' ! Suc 0 = ?ps ! Suc 0 @ ?s"
    proof (cases "length ?ps = 2")
      case True
      then obtain a b where ab: "?ps = [a, b]"
        by (auto simp: length_Suc_conv numeral_2_eq_2)
      show ?thesis unfolding sp ab by simp
    next
      case False
      with len have "1 < length (butlast ?ps)" by simp
      then have "(butlast ?ps @ [last ?ps @ ?s]) ! Suc 0 = ?ps ! Suc 0"
        by (simp add: nth_append nth_butlast)
      then show ?thesis unfolding sp by simp
    qed
    let ?a = "?ps ! Suc 0"
    have u1: "urlToPath u = (case indexOf ?a ''/'' of Some i \<Rightarrow> drop i ?a | None \<Rightarrow> ''/'')"
      using abs len ne unfolding urlToPath_def by (simp add: Let_def)
    from el show ?thesis
    proof
      assume e: "split (u @ ?s) ''://'' ! Suc 0 = ?a"
      have "urlToPath (u @ ?s) = urlToPath u"
        using abs len len' ne e unfolding urlToPath_def includes_sep_qf by (simp add: Let_def)
      moreover have "\<exists>p. urlToPath u = CHR ''/'' # p"
        unfolding u1 using indexOf_slash_drop[of ?a] by (cases "indexOf ?a ''/''") auto
      ultimately show ?thesis by auto
    next
      assume e: "split (u @ ?s) ''://'' ! Suc 0 = ?a @ ?s"
      have u2: "urlToPath (u @ ?s) =
          (case indexOf (?a @ ?s) ''/'' of Some i \<Rightarrow> drop i (?a @ ?s) | None \<Rightarrow> ''/'')"
        using abs len' e unfolding urlToPath_def includes_sep_qf by (simp add: Let_def)
      show ?thesis
      proof (cases "indexOf ?a ''/''")
        case None
        then show ?thesis unfolding u1 u2 indexOf_slash_qf by simp
      next
        case (Some i)
        from indexOf_slash_drop[OF Some] obtain p where "i < length ?a" "drop i ?a = CHR ''/'' # p"
          by blast
        with Some show ?thesis unfolding u1 u2 indexOf_slash_qf by simp
      qed
    qed
  next
    case tpl
    show ?thesis
    proof (cases "lastIndexOf u ''}}''")
      case None
      have "lastIndexOf u ''}}'' \<noteq> None" using tpl(2)
        by (induction u) (auto split: option.splits)
      with None show ?thesis by simp
    next
      case (Some i)
      from lastIndexOf_bound[OF Some] have b: "i + 2 \<le> length u" by simp
      let ?t = "drop (Suc (Suc i)) u"
      have d: "drop (Suc (Suc i)) (u @ ?s) = ?t @ ?s" using b by simp
      have sw: "startsWith (?t @ ?s) ''/'' = startsWith ?t ''/''"
        unfolding startsWith_def by (cases ?t) auto
      have u1: "urlToPath u = (if startsWith ?t ''/'' then ?t else ''/'' @ ?t)"
        using tpl Some unfolding urlToPath_def by (simp add: Let_def)
      have u2: "urlToPath (u @ ?s) = (if startsWith ?t ''/'' then ?t @ ?s else ''/'' @ ?t @ ?s)"
        using tpl Some unfolding urlToPath_def includes_sep_qf includes_tpl_qf lastIndexOf_tpl_qf
        by (simp add: Let_def d sw del: drop_append)
      show ?thesis unfolding u1 u2 startsWith_def by (cases ?t) auto
    qed
  next
    case root
    then have u1: "urlToPath u = u" unfolding urlToPath_def by simp
    from root have sw: "startsWith (u @ ?s) ''/''" unfolding startsWith_def by (cases u) auto
    have u2: "urlToPath (u @ ?s) = u @ ?s"
      using root sw unfolding urlToPath_def includes_sep_qf includes_tpl_qf by simp
    from root(3) show ?thesis unfolding u1 u2 startsWith_def by (cases u) auto
  next
    case bare
    then have u1: "urlToPath u = ''/'' @ u" unfolding urlToPath_def by simp
    from bare have sw: "\<not> startsWith (u @ ?s) ''/''" unfolding startsWith_def by (cases u) auto
    have u2: "urlToPath (u @ ?s) = ''/'' @ u @ ?s"
      using bare sw unfolding urlToPath_def includes_sep_qf includes_tpl_qf by simp
    show ?thesis unfolding u1 u2 by simp
  qed
qed

lemma normalizedPath_qf:
  assumes "hasAfterProtocol u"
  shows "normalizedPath (u @ ''?x=1#y'') = normalizedPath u"
proof -
  from urlToPath_qf[OF assms] obtain p where
    p: "urlToPath u = CHR ''/'' # p" and
    d: "urlToPath (u @ ''?x=1#y'') = urlToPath u \<or>
        urlToPath (u @ ''?x=1#y'') = urlToPath u @ ''?x=1#y''" by blast
  have "cutAt (urlToPath (u @ ''?x=1#y'')) ''?'' = cutAt (urlToPath u) ''?''"
    using d unfolding p using cutAt_query_qf[of p] by auto
  then show ?thesis unfolding normalizedPath_def by simp
qed


lemmas name_eval = generateCompleteSessionName_def normalizedPath_def urlToPath_def cutAt_def
  startsWith_def toUpperCase_def toUpperChar_def stripSchemeHost_def hasAfterProtocol_def Let_def

subsection \<open>The path of the name, and the fall-back to the original URL\<close>

lemma generateCompleteSessionName_path:
  "generateCompleteSessionName r = toUpperCase (req_method r) @ '' '' @ sessionPath (req_url r)"
  unfolding generateCompleteSessionName_def sessionPath_def by (simp add: Let_def)

lemma sessionPath_plain: "normalizedPath u \<noteq> ''/'' \<Longrightarrow> sessionPath u = normalizedPath u"
  by (simp add: sessionPath_def)

lemma sessionPath_fallback:
  "normalizedPath u = ''/'' \<Longrightarrow> u \<noteq> ''/'' \<Longrightarrow>
   sessionPath u = (if stripSchemeHost u \<noteq> [] then stripSchemeHost u else ''/'')"
  by (simp add: sessionPath_def)

lemma sessionPath_root: "normalizedPath u = ''/'' \<Longrightarrow> u = ''/'' \<Longrightarrow> sessionPath u = ''/''"
  by (simp add: sessionPath_def)

lemma prefix_append_fresh:
  assumes "s \<noteq> []" "hd s \<notin> set p"
  shows "prefix p (u @ s) = prefix p u"
proof
  assume "prefix p (u @ s)"
  then consider "prefix p u" | us where "p = u @ us" "prefix us s"
    unfolding prefix_append by blast
  then show "prefix p u"
  proof cases
    case 1
    then show ?thesis .
  next
    case 2
    show ?thesis
    proof (cases us)
      case Nil
      with 2 show ?thesis by simp
    next
      case (Cons a as)
      with 2(2) assms(1) have "a = hd s" by (cases s) auto
      with Cons 2(1) assms(2) show ?thesis by simp
    qed
  qed
next
  assume "prefix p u"
  then show "prefix p (u @ s)" by (rule prefix_prefix)
qed

lemma scheme_cases:
  obtains (plain) "\<not> prefix ''https://'' u" "\<not> prefix ''http://'' u"
        | (https) r where "u = ''https://'' @ r"
        | (http) r where "u = ''http://'' @ r"
  unfolding prefix_def by blast

lemma strip_plain:
  "\<not> prefix ''https://'' u \<Longrightarrow> \<not> prefix ''http://'' u \<Longrightarrow> stripSchemeHost u = u"
  by (simp add: stripSchemeHost_def)

lemma strip_https:
  "stripSchemeHost (''https://'' @ r) =
     (if takeWhile (\<lambda>c. c \<noteq> CHR ''/'') r = [] then ''https://'' @ r
      else dropWhile (\<lambda>c. c \<noteq> CHR ''/'') r)"
  by (simp add: stripSchemeHost_def)

lemma strip_http:
  "stripSchemeHost (''http://'' @ r) =
     (if takeWhile (\<lambda>c. c \<noteq> CHR ''/'') r = [] then ''http://'' @ r
      else dropWhile (\<lambda>c. c \<noteq> CHR ''/'') r)"
  by (simp add: stripSchemeHost_def)

lemma hostOnly_https: "hostOnly (''https://'' @ r) = (r \<noteq> [] \<and> CHR ''/'' \<notin> set r)"
  by (simp add: hostOnly_def)

lemma hostOnly_http: "hostOnly (''http://'' @ r) = (r \<noteq> [] \<and> CHR ''/'' \<notin> set r)"
  by (simp add: hostOnly_def)

lemma hostOnly_plain:
  "\<not> prefix ''https://'' u \<Longrightarrow> \<not> prefix ''http://'' u \<Longrightarrow> \<not> hostOnly u"
  by (simp add: hostOnly_def)

lemma strip_suffix_differs:
  assumes "\<not> hostOnly u" "u \<noteq> ''https://''" "u \<noteq> ''http://''"
  shows "stripSchemeHost (u @ ''?x=1#y'') \<noteq> [] \<and>
         stripSchemeHost (u @ ''?x=1#y'') \<noteq> ''/'' \<and>
         stripSchemeHost (u @ ''?x=1#y'') \<noteq> stripSchemeHost u"
proof -
  let ?s = "''?x=1#y''"
  let ?P = "\<lambda>c. c \<noteq> CHR ''/''"
  have long: "v @ ?s \<noteq> ''/''" "v @ ?s \<noteq> []" "v @ ?s \<noteq> v" for v :: string
    by (simp_all add: append_eq_Cons_conv)
  have scheme: "stripSchemeHost (p @ r @ ?s) \<noteq> [] \<and> stripSchemeHost (p @ r @ ?s) \<noteq> ''/'' \<and>
                stripSchemeHost (p @ r @ ?s) \<noteq> stripSchemeHost (p @ r)"
    if r: "r \<noteq> []" "CHR ''/'' \<in> set r"
      and p: "\<And>t. stripSchemeHost (p @ t) = (if takeWhile ?P t = [] then p @ t else dropWhile ?P t)"
    for p r
  proof -
    have tw: "takeWhile ?P (r @ ?s) = takeWhile ?P r"
      using r(2) by (intro takeWhile_append1[where x="CHR ''/''"]) simp_all
    have dw: "dropWhile ?P (r @ ?s) = dropWhile ?P r @ ?s"
      using r(2) by (intro dropWhile_append1[where x="CHR ''/''"]) simp_all
    show ?thesis
    proof (cases "takeWhile ?P r = []")
      case True
      then show ?thesis unfolding p tw using long[of "p @ r"] by simp
    next
      case False
      then show ?thesis unfolding p tw dw using long[of "dropWhile ?P r"] by simp
    qed
  qed
  show ?thesis
  proof (cases u rule: scheme_cases)
    case plain
    then have "\<not> prefix ''https://'' (u @ ?s)" "\<not> prefix ''http://'' (u @ ?s)"
      by (simp_all add: prefix_append_fresh)
    then have "stripSchemeHost (u @ ?s) = u @ ?s" by (rule strip_plain)
    moreover from plain have "stripSchemeHost u = u" by (rule strip_plain)
    ultimately show ?thesis using long[of u] by simp
  next
    case (https r)
    from assms(2) https have r: "r \<noteq> []" by auto
    from assms(1) have "\<not> (r \<noteq> [] \<and> CHR ''/'' \<notin> set r)" unfolding https hostOnly_https .
    with r have "r \<noteq> []" "CHR ''/'' \<in> set r" by simp_all
    from scheme[OF this strip_https] show ?thesis unfolding https by simp
  next
    case (http r)
    from assms(3) http have r: "r \<noteq> []" by auto
    from assms(1) have "\<not> (r \<noteq> [] \<and> CHR ''/'' \<notin> set r)" unfolding http hostOnly_http .
    with r have "r \<noteq> []" "CHR ''/'' \<in> set r" by simp_all
    from scheme[OF this strip_http] show ?thesis unfolding http by simp
  qed
qed

subsection \<open>The pieces of a URL\<close>

lemma split_plain: "CHR ''/'' \<notin> set r \<Longrightarrow> split r ''://'' = [r]"
proof (induction r)
  case Nil
  show ?case by simp
next
  case (Cons c cs)
  then have "\<not> prefix ''://'' (c # cs)" by (auto simp: prefix_def)
  with Cons show ?case by simp
qed

lemma indexOf_plain: "CHR ''/'' \<notin> set r \<Longrightarrow> indexOf r ''/'' = None"
  by (induction r) auto

lemma split_https: "split (''https://'' @ r) ''://'' = ''https'' # split r ''://''"
  by simp

lemma split_http: "split (''http://'' @ r) ''://'' = ''http'' # split r ''://''"
  by simp

lemma includes_https: "includesStr (''https://'' @ r) ''://''"
  by simp

lemma includes_http: "includesStr (''http://'' @ r) ''://''"
  by simp

lemma includes_split_length:
  "includesStr u sep \<Longrightarrow> sep \<noteq> [] \<Longrightarrow> 2 \<le> length (split u sep)"
proof (induction u)
  case Nil
  then show ?case by simp
next
  case (Cons c cs)
  show ?case
  proof (cases "prefix sep (c # cs)")
    case True
    then show ?thesis
      using split_nonempty[of "drop (length sep - 1) cs" sep]
      by (cases "split (drop (length sep - 1) cs) sep") simp_all
  next
    case False
    with Cons.prems have "includesStr cs sep" by simp
    from Cons.IH[OF this Cons.prems(2)] False show ?thesis
      by (cases "split cs sep") simp_all
  qed
qed

lemma noAfter_iff:
  "\<not> hasAfterProtocol u \<longleftrightarrow> includesStr u ''://'' \<and> split u ''://'' ! Suc 0 = []"
  using includes_split_length[of u "''://''"] by (auto simp: hasAfterProtocol_def)

lemma noAfter_shape:
  assumes "\<not> hasAfterProtocol u"
  obtains a rest where "split u ''://'' = a # [] # rest"
proof -
  from assms have i: "includesStr u ''://''" and e: "split u ''://'' ! Suc 0 = []"
    by (simp_all add: noAfter_iff)
  from includes_split_length[OF i] obtain a b rest where "split u ''://'' = a # b # rest"
    by (cases "split u ''://''"; cases "tl (split u ''://'')") auto
  with e that show ?thesis by simp
qed

lemma noAfter_urlToPath: "\<not> hasAfterProtocol u \<Longrightarrow> urlToPath u = u"
  by (simp add: noAfter_iff urlToPath_def Let_def)

lemma noAfter_two:
  assumes "\<not> hasAfterProtocol u" "length (split u ''://'') = 2"
  shows "urlToPath (u @ ''?x=1#y'') = ''/''"
proof -
  from noAfter_shape[OF assms(1)] obtain a rest where s: "split u ''://'' = a # [] # rest" .
  with assms(2) have s: "split u ''://'' = [a, []]" by simp
  have s': "split (u @ ''?x=1#y'') ''://'' = [a, ''?x=1#y'']"
    unfolding split_sep_qf s by simp
  from assms(1) have i: "includesStr (u @ ''?x=1#y'') ''://''"
    unfolding includes_sep_qf by (simp add: noAfter_iff)
  show ?thesis unfolding urlToPath_def using i by (simp add: s' Let_def)
qed

lemma noAfter_more:
  assumes "\<not> hasAfterProtocol u" "length (split u ''://'') > 2"
  shows "urlToPath (u @ ''?x=1#y'') = u @ ''?x=1#y''"
proof -
  from noAfter_shape[OF assms(1)] obtain a rest where s: "split u ''://'' = a # [] # rest" .
  with assms(2) have r: "rest \<noteq> []" by auto
  have s': "split (u @ ''?x=1#y'') ''://'' = a # [] # (butlast rest @ [last rest @ ''?x=1#y''])"
    unfolding split_sep_qf s using r by simp
  from assms(1) have i: "includesStr (u @ ''?x=1#y'') ''://''"
    unfolding includes_sep_qf by (simp add: noAfter_iff)
  show ?thesis unfolding urlToPath_def using i by (simp add: s' Let_def)
qed

lemma cutAt_single:
  "cutAt x [c] = (if c \<in> set x \<and> takeWhile (\<lambda>d. d \<noteq> c) x \<noteq> []
                  then takeWhile (\<lambda>d. d \<noteq> c) x else x)"
proof -
  obtain ps where "split x [c] = takeWhile (\<lambda>d. d \<noteq> c) x # ps"
    using split_single by blast
  then show ?thesis unfolding cutAt_def includes_single by simp
qed

lemma length_cutAt: "length (cutAt x [c]) \<le> length x"
  unfolding cutAt_single by (simp add: length_takeWhile_le)

lemma length_collapseSlashes: "length (collapseSlashes x) \<le> length x"
proof (induction x rule: collapseSlashes.induct)
  case 1
  show ?case by simp
next
  case (2 c cs)
  show ?case
  proof (cases "c = CHR ''/''")
    case True
    with 2(1) have "length (collapseSlashes (dropWhile (\<lambda>d. d = CHR ''/'') cs))
        \<le> length (dropWhile (\<lambda>d. d = CHR ''/'') cs)" by simp
    also have "\<dots> \<le> length cs" by (rule length_dropWhile_le)
    finally show ?thesis using True by simp
  next
    case False
    with 2(2) show ?thesis by simp
  qed
qed

lemma filter_dropWhile_eq:
  "filter (\<lambda>c. c \<noteq> a) (dropWhile (\<lambda>d. d = a) cs) = filter (\<lambda>c. c \<noteq> a) cs"
  by (induction cs) auto

lemma filter_collapseSlashes:
  "filter (\<lambda>c. c \<noteq> CHR ''/'') (collapseSlashes x) = filter (\<lambda>c. c \<noteq> CHR ''/'') x"
proof (induction x rule: collapseSlashes.induct)
  case 1
  show ?case by simp
next
  case (2 c cs)
  then show ?case by (cases "c = CHR ''/''") (simp_all add: filter_dropWhile_eq)
qed

lemma length_normalizedPath: "length (normalizedPath u) \<le> Suc (length (urlToPath u))"
proof -
  have "length (collapseSlashes (cutAt (cutAt (urlToPath u) ''?'') ''#'')) \<le> length (urlToPath u)"
    using length_collapseSlashes[of "cutAt (cutAt (urlToPath u) ''?'') ''#''"]
      length_cutAt[of "cutAt (urlToPath u) ''?''" "CHR ''#''"]
      length_cutAt[of "urlToPath u" "CHR ''?''"] by simp
  then show ?thesis unfolding normalizedPath_def by (simp add: Let_def)
qed

lemma filter_normalizedPath:
  "filter (\<lambda>c. c \<noteq> CHR ''/'') (normalizedPath u) =
   filter (\<lambda>c. c \<noteq> CHR ''/'') (cutAt (cutAt (urlToPath u) ''?'') ''#'')"
  unfolding normalizedPath_def by (simp add: Let_def filter_collapseSlashes)

lemma normalizedPath_cut:
  "cutAt (cutAt (urlToPath v) ''?'') ''#'' = cutAt (cutAt (urlToPath u) ''?'') ''#'' \<Longrightarrow>
   normalizedPath v = normalizedPath u"
  unfolding normalizedPath_def by simp

lemma length_stripSchemeHost: "length (stripSchemeHost u) \<le> length u"
proof (cases u rule: scheme_cases)
  case plain
  then show ?thesis by (simp add: strip_plain)
next
  case (https r)
  have "length (dropWhile (\<lambda>c. c \<noteq> CHR ''/'') r) \<le> length r" by (rule length_dropWhile_le)
  then show ?thesis unfolding https strip_https by simp
next
  case (http r)
  have "length (dropWhile (\<lambda>c. c \<noteq> CHR ''/'') r) \<le> length r" by (rule length_dropWhile_le)
  then show ?thesis unfolding http strip_http by simp
qed

subsection \<open>The path with and without the suffix\<close>

lemma suffix_long: "v @ ''?x=1#y'' \<noteq> ''/''" "v @ ''?x=1#y'' \<noteq> []" "v @ ''?x=1#y'' \<noteq> v"
  by (simp_all add: append_eq_Cons_conv)

lemma hostOnly_shape:
  assumes "hostOnly u"
  obtains p r where "u = p @ r" "p = ''https://'' \<or> p = ''http://''" "r \<noteq> []" "CHR ''/'' \<notin> set r"
proof (cases u rule: scheme_cases)
  case plain
  with assms show ?thesis by (simp add: hostOnly_plain)
next
  case (https r)
  from assms have "r \<noteq> [] \<and> CHR ''/'' \<notin> set r" unfolding https hostOnly_https .
  with https that show ?thesis by blast
next
  case (http r)
  from assms have "r \<noteq> [] \<and> CHR ''/'' \<notin> set r" unfolding http hostOnly_http .
  with http that show ?thesis by blast
qed

lemma plain_normalizedPath: "urlToPath u = ''/'' \<Longrightarrow> normalizedPath u = ''/''"
  by (simp add: normalizedPath_def cutAt_def startsWith_def)

lemma hostOnly_hasAfterProtocol:
  assumes "hostOnly u"
  shows "hasAfterProtocol u"
proof -
  from hostOnly_shape[OF assms] obtain p r where
    u: "u = p @ r" and p: "p = ''https://'' \<or> p = ''http://''" and r: "r \<noteq> []" "CHR ''/'' \<notin> set r" .
  from p show ?thesis
  proof
    assume "p = ''https://''"
    then show ?thesis unfolding u hasAfterProtocol_def
      using r by (simp only: split_https split_plain[OF r(2)]) simp
  next
    assume "p = ''http://''"
    then show ?thesis unfolding u hasAfterProtocol_def
      using r by (simp only: split_http split_plain[OF r(2)]) simp
  qed
qed

lemma hostOnly_sessionPath:
  assumes "hostOnly u"
  shows "sessionPath u = ''/''"
proof -
  from hostOnly_shape[OF assms] obtain p r where
    u: "u = p @ r" and p: "p = ''https://'' \<or> p = ''http://''" and r: "r \<noteq> []" "CHR ''/'' \<notin> set r" .
  have sp: "split u ''://'' = [''https'', r] \<or> split u ''://'' = [''http'', r]"
    using p unfolding u by (auto simp only: split_https split_http split_plain[OF r(2)])
  have inc: "includesStr u ''://''"
    using p unfolding u by (auto simp only: includes_https includes_http)
  have "urlToPath u = ''/''"
    unfolding urlToPath_def using inc sp r by (auto simp: Let_def indexOf_plain)
  then have n: "normalizedPath u = ''/''" by (rule plain_normalizedPath)
  have tw: "takeWhile (\<lambda>c. c \<noteq> CHR ''/'') r = r" "dropWhile (\<lambda>c. c \<noteq> CHR ''/'') r = []"
    using r(2) by (auto simp: takeWhile_eq_all_conv)
  have st: "stripSchemeHost u = []"
    using p r(1) unfolding u by (auto simp only: strip_https strip_http tw if_False)
  from p have "u \<noteq> ''/''" unfolding u by auto
  with n st show ?thesis by (simp add: sessionPath_fallback)
qed

lemma hostOnly_suffix: "hostOnly u \<Longrightarrow> hostOnly (u @ ''?x=1#y'')"
proof -
  assume "hostOnly u"
  from hostOnly_shape[OF this] obtain p r where
    u: "u = p @ r" and p: "p = ''https://'' \<or> p = ''http://''" and r: "r \<noteq> []" "CHR ''/'' \<notin> set r" .
  have r': "r @ ''?x=1#y'' \<noteq> [] \<and> CHR ''/'' \<notin> set (r @ ''?x=1#y'')" using r by simp
  from p show ?thesis
  proof
    assume "p = ''https://''"
    then have e: "u @ ''?x=1#y'' = ''https://'' @ (r @ ''?x=1#y'')" unfolding u by simp
    show ?thesis unfolding e hostOnly_https by (rule r')
  next
    assume "p = ''http://''"
    then have e: "u @ ''?x=1#y'' = ''http://'' @ (r @ ''?x=1#y'')" unfolding u by simp
    show ?thesis unfolding e hostOnly_http by (rule r')
  qed
qed

text \<open>The fall-back of the name with the suffix differs from the one without.\<close>

lemma fallback_differs:
  assumes "\<not> hostOnly u" "u \<noteq> ''https://''" "u \<noteq> ''http://''"
    and "normalizedPath (u @ ''?x=1#y'') = ''/''" "normalizedPath u = ''/''"
  shows "sessionPath (u @ ''?x=1#y'') \<noteq> sessionPath u"
proof -
  let ?v = "u @ ''?x=1#y''"
  from strip_suffix_differs[OF assms(1-3)] have
    s: "stripSchemeHost ?v \<noteq> []" "stripSchemeHost ?v \<noteq> ''/''"
       "stripSchemeHost ?v \<noteq> stripSchemeHost u" by simp_all
  have v: "sessionPath ?v = stripSchemeHost ?v"
    using assms(4) s(1) suffix_long(1)[of u] by (simp add: sessionPath_fallback)
  show ?thesis
  proof (cases "u = ''/''")
    case True
    with assms(5) have "sessionPath u = ''/''" by (simp add: sessionPath_root)
    with v s(2) show ?thesis by simp
  next
    case False
    with assms(5) have "sessionPath u = (if stripSchemeHost u \<noteq> [] then stripSchemeHost u else ''/'')"
      by (rule sessionPath_fallback)
    with v s show ?thesis by simp
  qed
qed

lemma scheme_only_eval:
  "\<not> hasAfterProtocol ''https://''" "\<not> hasAfterProtocol ''http://''"
  "length (split ''https://'' ''://'') = 2" "length (split ''http://'' ''://'') = 2"
  "sessionPath (''https://'' @ ''?x=1#y'') \<noteq> sessionPath ''https://''"
  "sessionPath (''http://'' @ ''?x=1#y'') \<noteq> sessionPath ''http://''"
  by (simp_all add: name_eval sessionPath_def)

text \<open>A URL with some text after its first \<open>://\<close>, or without \<open>://\<close>.\<close>

lemma hasAfter_case:
  assumes "hasAfterProtocol u" "\<not> hostOnly u"
  shows "sessionPath (u @ ''?x=1#y'') = sessionPath u \<longleftrightarrow> normalizedPath u \<noteq> ''/''"
proof (cases "normalizedPath u = ''/''")
  case False
  with normalizedPath_qf[OF assms(1)] show ?thesis by (simp add: sessionPath_plain)
next
  case True
  from assms(1) have "u \<noteq> ''https://''" "u \<noteq> ''http://''" using scheme_only_eval(1,2) by auto
  from fallback_differs[OF assms(2) this] normalizedPath_qf[OF assms(1)] True
  show ?thesis by simp
qed

lemma split_only_empty: "split r sep = [[]] \<Longrightarrow> r = []"
  by (cases r) (auto split: if_splits list.splits simp: split_nonempty)

text \<open>A URL that ends with its first \<open>://\<close>.\<close>

lemma noAfter_two_case:
  assumes "\<not> hasAfterProtocol u" "length (split u ''://'') = 2"
  shows "sessionPath (u @ ''?x=1#y'') \<noteq> sessionPath u"
proof -
  let ?v = "u @ ''?x=1#y''"
  from noAfter_shape[OF assms(1)] obtain a rest where "split u ''://'' = a # [] # rest" .
  with assms(2) have sp: "split u ''://'' = [a, []]" by simp
  have nv: "normalizedPath ?v = ''/''"
    by (rule plain_normalizedPath) (rule noAfter_two[OF assms])
  have len: "length (sessionPath u) \<le> Suc (length u)"
  proof -
    have "length (normalizedPath u) \<le> Suc (length u)"
      using length_normalizedPath[of u] noAfter_urlToPath[OF assms(1)] by simp
    moreover have "length (stripSchemeHost u) \<le> length u" by (rule length_stripSchemeHost)
    ultimately show ?thesis unfolding sessionPath_def by (simp add: Let_def)
  qed
  show ?thesis
  proof (cases u rule: scheme_cases)
    case plain
    then have "\<not> prefix ''https://'' ?v" "\<not> prefix ''http://'' ?v"
      by (simp_all add: prefix_append_fresh)
    then have "stripSchemeHost ?v = ?v" by (rule strip_plain)
    with nv suffix_long[of u] have "sessionPath ?v = ?v" by (simp add: sessionPath_fallback)
    with len show ?thesis by (auto dest: arg_cong[where f=length])
  next
    case (https r)
    from sp have "split r ''://'' = [[]]" unfolding https split_https by simp
    then have "r = []" by (rule split_only_empty)
    with https have "u = ''https://''" by simp
    then show ?thesis using scheme_only_eval(5) by simp
  next
    case (http r)
    from sp have "split r ''://'' = [[]]" unfolding http split_http by simp
    then have "r = []" by (rule split_only_empty)
    with http have "u = ''http://''" by simp
    then show ?thesis using scheme_only_eval(6) by simp
  qed
qed

text \<open>A URL whose first \<open>://\<close> is followed by another one.\<close>

lemma noAfter_more_case:
  assumes "\<not> hasAfterProtocol u" "length (split u ''://'') > 2"
  shows "sessionPath (u @ ''?x=1#y'') = sessionPath u \<longleftrightarrow>
         normalizedPath u \<noteq> ''/'' \<and> (startsWith u ''?'' \<longrightarrow> CHR ''#'' \<in> set u)"
proof -
  let ?s = "''?x=1#y''"
  let ?v = "u @ ?s"
  let ?Q = "\<lambda>d. d \<noteq> CHR ''?''"
  let ?H = "\<lambda>d. d \<noteq> CHR ''#''"
  let ?S = "\<lambda>c. c \<noteq> CHR ''/''"
  have pu: "urlToPath u = u" by (rule noAfter_urlToPath[OF assms(1)])
  have pv: "urlToPath ?v = ?v" by (rule noAfter_more[OF assms])
  from assms(1) have inc: "includesStr u ''://''" by (simp add: noAfter_iff)
  then have ne: "u \<noteq> []" by auto
  have nh: "\<not> hostOnly u" using assms(1) hostOnly_hasAfterProtocol by blast
  have ns: "u \<noteq> ''https://''" "u \<noteq> ''http://''" using assms(2) scheme_only_eval(3,4) by auto
  have qv: "takeWhile ?Q ?v = takeWhile ?Q u" by (rule takeWhile_query_qf)
  show ?thesis
  proof (cases "startsWith u ''?'' \<and> CHR ''#'' \<notin> set u")
    case True
    then obtain t where t: "u = CHR ''?'' # t" unfolding startsWith_def by (cases u) auto
    from True have h: "CHR ''#'' \<notin> set u" by simp
    have cu: "cutAt (cutAt u ''?'') ''#'' = u"
      using h unfolding cutAt_single by (simp add: t)
    have "takeWhile ?H ?v = u @ ''?x=1''"
      using h by (subst takeWhile_append2) auto
    then have cv: "cutAt (cutAt ?v ''?'') ''#'' = u @ ''?x=1''"
      unfolding cutAt_single[of ?v] qv by (simp add: t cutAt_single)
    have fu: "filter ?S (normalizedPath u) = filter ?S u"
      unfolding filter_normalizedPath pu cu ..
    have fv: "filter ?S (normalizedPath ?v) = filter ?S u @ ''?x=1''"
      unfolding filter_normalizedPath pv cv by simp
    have f0: "filter ?S u \<noteq> []" by (simp add: t)
    from fu f0 have n1: "normalizedPath u \<noteq> ''/''" by auto
    from fv f0 have n2: "normalizedPath ?v \<noteq> ''/''" by auto
    from fu fv have "normalizedPath ?v \<noteq> normalizedPath u" by auto
    with n1 n2 True show ?thesis by (simp add: sessionPath_plain)
  next
    case False
    have "cutAt (cutAt ?v ''?'') ''#'' = cutAt (cutAt u ''?'') ''#''"
    proof (cases "startsWith u ''?''")
      case q: False
      with ne have "takeWhile ?Q u \<noteq> []" unfolding startsWith_def by (cases u) auto
      moreover have "CHR ''?'' \<notin> set u \<Longrightarrow> takeWhile ?Q u = u"
        by (auto simp: takeWhile_eq_all_conv)
      ultimately have "cutAt ?v ''?'' = cutAt u ''?''"
        unfolding cutAt_single qv by auto
      then show ?thesis by simp
    next
      case q: True
      with False have h: "CHR ''#'' \<in> set u" by simp
      from q obtain t where t: "u = CHR ''?'' # t" unfolding startsWith_def by (cases u) auto
      have c1: "cutAt ?v ''?'' = ?v" "cutAt u ''?'' = u"
        unfolding cutAt_single by (simp_all add: t)
      have tw: "takeWhile ?H ?v = takeWhile ?H u"
        using h by (intro takeWhile_append1[where x="CHR ''#''"]) simp_all
      have tn: "takeWhile ?H u \<noteq> []" by (simp add: t)
      have "cutAt ?v ''#'' = takeWhile ?H u"
        unfolding cutAt_single[of ?v] tw using h tn by simp
      moreover have "cutAt u ''#'' = takeWhile ?H u"
        unfolding cutAt_single[of u] using h tn by simp
      ultimately show ?thesis by (simp only: c1)
    qed
    then have "cutAt (cutAt (urlToPath ?v) ''?'') ''#'' = cutAt (cutAt (urlToPath u) ''?'') ''#''"
      by (simp only: pu pv)
    then have n: "normalizedPath ?v = normalizedPath u" by (rule normalizedPath_cut)
    show ?thesis
    proof (cases "normalizedPath u = ''/''")
      case eq: False
      with n False show ?thesis by (auto simp: sessionPath_plain)
    next
      case eq: True
      from fallback_differs[OF nh ns] n eq show ?thesis by simp
    qed
  qed
qed

lemma sessionPath_suffix_iff:
  "sessionPath (u @ ''?x=1#y'') = sessionPath u \<longleftrightarrow>
     hostOnly u \<or>
     (normalizedPath u \<noteq> ''/'' \<and>
      (hasAfterProtocol u \<or>
       (length (split u ''://'') > 2 \<and> (startsWith u ''?'' \<longrightarrow> CHR ''#'' \<in> set u))))"
proof (cases "hostOnly u")
  case True
  with hostOnly_sessionPath[OF True] hostOnly_sessionPath[OF hostOnly_suffix[OF True]]
  show ?thesis by simp
next
  case h: False
  show ?thesis
  proof (cases "hasAfterProtocol u")
    case True
    with hasAfter_case[OF True h] h show ?thesis by simp
  next
    case False
    then have "includesStr u ''://''" by (simp add: noAfter_iff)
    from includes_split_length[OF this]
    consider "length (split u ''://'') = 2" | "length (split u ''://'') > 2" by fastforce
    then show ?thesis
    proof cases
      case 1
      with noAfter_two_case[OF False 1] h False show ?thesis by simp
    next
      case 2
      with noAfter_more_case[OF False 2] h False show ?thesis by auto
    qed
  qed
qed

text \<open>
  Claim C1, as amended. The session name of a request with \<open>?x=1#y\<close> appended to its
  URL is the session name of the request itself exactly in two cases. Either the URL is
  \<open>http://\<close> or \<open>https://\<close> followed by a host without any slash, and both names are the
  method and \<open>/\<close>. Or the path before the last step is not \<open>/\<close>, so that the fall-back
  to the original URL is not taken, and the URL has no \<open>://\<close>, or has some text between
  its first \<open>://\<close> and the next one (or its end), or has a second \<open>://\<close> right after the
  first one and does not both start with \<open>?\<close> and lack a \<open>#\<close>. For every other URL the two
  names differ.
\<close>

theorem sessionName_suffix_stable:
  "generateCompleteSessionName (r\<lparr>req_url := req_url r @ ''?x=1#y''\<rparr>) =
     generateCompleteSessionName r \<longleftrightarrow>
   hostOnly (req_url r) \<or>
   (normalizedPath (req_url r) \<noteq> ''/'' \<and>
    (hasAfterProtocol (req_url r) \<or>
     (length (split (req_url r) ''://'') > 2 \<and>
      (startsWith (req_url r) ''?'' \<longrightarrow> CHR ''#'' \<in> set (req_url r)))))"
  unfolding generateCompleteSessionName_path using sessionPath_suffix_iff[of "req_url r"] by simp

text \<open>
  The amended claim at the URLs \<open>https://a.com\<close> and \<open>https://a.com/x\<close>: with and without
  the suffix the names are \<open>GET /\<close> and \<open>GET /x\<close>.
\<close>

theorem sessionName_suffix_stable_witness:
  "hostOnly ''https://a.com'' \<and>
   generateCompleteSessionName
     \<lparr>req_id = ''1'', req_name = ''A'', req_method = ''get'', req_url = ''https://a.com?x=1#y'',
      req_headers = ([] :: headers), req_body = None\<rparr> = ''GET /'' \<and>
   generateCompleteSessionName
     \<lparr>req_id = ''1'', req_name = ''A'', req_method = ''get'', req_url = ''https://a.com'',
      req_headers = ([] :: headers), req_body = None\<rparr> = ''GET /'' \<and>
   normalizedPath ''https://a.com/x'' = ''/x'' \<and>
   generateCompleteSessionName
     \<lparr>req_id = ''1'', req_name = ''A'', req_method = ''get'', req_url = ''https://a.com/x?x=1#y'',
      req_headers = ([] :: headers), req_body = None\<rparr> = ''GET /x'' \<and>
   generateCompleteSessionName
     \<lparr>req_id = ''1'', req_name = ''A'', req_method = ''get'', req_url = ''https://a.com/x'',
      req_headers = ([] :: headers), req_body = None\<rparr> = ''GET /x''"
proof -
  let ?r = "\<lparr>req_id = ''1'', req_name = ''A'', req_method = ''get'', req_url = ''https://a.com'',
      req_headers = ([] :: headers), req_body = None\<rparr>"
  let ?q = "\<lparr>req_id = ''1'', req_name = ''A'', req_method = ''get'', req_url = ''https://a.com/x'',
      req_headers = ([] :: headers), req_body = None\<rparr>"
  have h: "hostOnly (req_url ?r)" by (simp add: hostOnly_def)
  have a: "hasAfterProtocol (req_url ?q)" by (simp add: name_eval)
  have n: "normalizedPath (req_url ?q) = ''/x''" by (simp add: name_eval)
  have r: "generateCompleteSessionName ?r = ''GET /''" by (simp add: name_eval)
  have q: "generateCompleteSessionName ?q = ''GET /x''" by (simp add: name_eval)
  from sessionName_suffix_stable[of ?r] h r
  have r': "generateCompleteSessionName (?r\<lparr>req_url := req_url ?r @ ''?x=1#y''\<rparr>) = ''GET /''"
    by simp
  from sessionName_suffix_stable[of ?q] a n q
  have q': "generateCompleteSessionName (?q\<lparr>req_url := req_url ?q @ ''?x=1#y''\<rparr>) = ''GET /x''"
    by simp
  from h n r q r' q' show ?thesis by simp
qed

text \<open>
  Claim C1 as stated fails where the fall-back is taken: for \<open>https://a.com/\<close>,
  \<open>{{baseUrl}}\<close> and \<open>/\<close> the path is \<open>/\<close> with and without the suffix, and the fall-back
  then returns the URL with the suffix still on it. It also fails for \<open>https://\<close>, where
  nothing follows \<open>://\<close> until the suffix is appended.
\<close>

theorem sessionName_suffix_counterexample:
  "generateCompleteSessionName
     \<lparr>req_id = ''1'', req_name = ''A'', req_method = ''GET'', req_url = ''https://a.com/'' @ ''?x=1#y'',
      req_headers = ([] :: headers), req_body = None\<rparr> \<noteq>
   generateCompleteSessionName
     \<lparr>req_id = ''1'', req_name = ''A'', req_method = ''GET'', req_url = ''https://a.com/'',
      req_headers = ([] :: headers), req_body = None\<rparr> \<and>
   generateCompleteSessionName
     \<lparr>req_id = ''1'', req_name = ''A'', req_method = ''GET'', req_url = ''{{baseUrl}}'' @ ''?x=1#y'',
      req_headers = ([] :: headers), req_body = None\<rparr> \<noteq>
   generateCompleteSessionName
     \<lparr>req_id = ''1'', req_name = ''A'', req_method = ''GET'', req_url = ''{{baseUrl}}'',
      req_headers = ([] :: headers), req_body = None\<rparr> \<and>
   generateCompleteSessionName
     \<lparr>req_id = ''1'', req_name = ''A'', req_method = ''GET'', req_url = ''/'' @ ''?x=1#y'',
      req_headers = ([] :: headers), req_body = None\<rparr> \<noteq>
   generateCompleteSessionName
     \<lparr>req_id = ''1'', req_name = ''A'', req_method = ''GET'', req_url = ''/'',
      req_headers = ([] :: headers), req_body = None\<rparr> \<and>
   generateCompleteSessionName
     \<lparr>req_id = ''1'', req_name = ''A'', req_method = ''GET'', req_url = ''https://'' @ ''?x=1#y'',
      req_headers = ([] :: headers), req_body = None\<rparr> \<noteq>
   generateCompleteSessionName
     \<lparr>req_id = ''1'', req_name = ''A'', req_method = ''GET'', req_url = ''https://'',
      req_headers = ([] :: headers), req_body = None\<rparr>"
  by (simp add: name_eval)

section \<open>Authentication: the copy and the original\<close>

lemma deleteProp_last: "deleteProp (st @ [h]) (length st) k = st @ [AList.delete k h]"
  by (simp add: deleteProp_def)

lemma setProp_last:
  "setProp (st @ [h]) (length st) k v =
     st @ [if k \<noteq> ''__proto__'' then AList.update k v h else h]"
  by (simp add: setProp_def)

lemma load_last: "load (st @ [h]) (length st) = h"
  by (simp add: load_def)

lemma load_old: "q < length st \<Longrightarrow> load (st @ [h]) q = load st q"
  by (simp add: load_def nth_append)

lemmas auth_unfold = applyAuthentication_def alloc_def Let_def deleteProp_last setProp_last

text \<open>
  A call appends one object to the store and returns the request with a reference to
  it; the objects that were in the store are as they were.
\<close>

lemma applyAuthentication_shape:
  "\<exists>hs. applyAuthentication hb st r a = (r\<lparr>req_headers := length st\<rparr>, st @ [hs])"
  by (simp add: auth_unfold)

text \<open>The contents of the new object depend on the contents of the input's only.\<close>

lemma applyAuthentication_contents:
  assumes "load st (req_headers r) = load sta (req_headers ra)"
    and "applyAuthentication hb st r a = (r', st @ [hs])"
    and "applyAuthentication hb sta ra a = (ra', sta @ [hsa])"
  shows "hs = hsa"
  using assms by (simp add: auth_unfold split: if_splits)

lemma applyAuthentication_bearer:
  assumes "auth_type a = ''bearer''" and "auth_token a = Some t" and "t \<noteq> []"
  shows "applyAuthentication hb st r a =
     (r\<lparr>req_headers := length st\<rparr>,
      st @ [AList.update ''Authorization'' (''Bearer '' @ t)
              (AList.delete ''x-auth-token'' (AList.delete ''X-Auth-Token''
                (AList.delete ''x-api-key'' (AList.delete ''X-API-Key''
                  (load st (req_headers r))))))])"
  using assms by (simp add: auth_unfold truthy_def strOf_def)

text \<open>
  Claim C7. For an \<open>AuthConfig\<close> of type \<open>bearer\<close> with a nonempty token, the header object
  of the returned request has none of \<open>X-API-Key\<close>, \<open>x-api-key\<close>, \<open>X-Auth-Token\<close>,
  \<open>x-auth-token\<close>; its \<open>Authorization\<close> is \<open>Bearer\<close>, a space and the token; and every other
  header is as in the input request's header object.
\<close>

theorem bearer_replaces_api_keys:
  assumes "auth_type a = ''bearer''" and "auth_token a = Some t" and "t \<noteq> []"
    and "applyAuthentication hb st r a = (r', st')"
  shows "''X-API-Key'' \<notin> fst ` set (load st' (req_headers r')) \<and>
         ''x-api-key'' \<notin> fst ` set (load st' (req_headers r')) \<and>
         ''X-Auth-Token'' \<notin> fst ` set (load st' (req_headers r')) \<and>
         ''x-auth-token'' \<notin> fst ` set (load st' (req_headers r')) \<and>
         map_of (load st' (req_headers r')) ''Authorization'' = Some (''Bearer '' @ t) \<and>
         (\<forall>k. k \<notin> {''X-API-Key'', ''x-api-key'', ''X-Auth-Token'', ''x-auth-token'',
                    ''Authorization''} \<longrightarrow>
              map_of (load st' (req_headers r')) k = map_of (load st (req_headers r)) k)"
proof -
  from assms(4) have r': "req_headers r' = length st" and
    st': "st' = st @ [AList.update ''Authorization'' (''Bearer '' @ t)
              (AList.delete ''x-auth-token'' (AList.delete ''X-Auth-Token''
                (AList.delete ''x-api-key'' (AList.delete ''X-API-Key''
                  (load st (req_headers r))))))]"
    unfolding applyAuthentication_bearer[OF assms(1-3)] by auto
  have "fst ` set (load st' (req_headers r')) \<inter>
          {''X-API-Key'', ''x-api-key'', ''X-Auth-Token'', ''x-auth-token''} = {}"
    unfolding r' st' load_last by (auto simp: dom_update AList.delete_eq)
  moreover have "map_of (load st' (req_headers r')) =
      ((map_of (load st (req_headers r)))(''X-API-Key'' := None, ''x-api-key'' := None,
         ''X-Auth-Token'' := None, ''x-auth-token'' := None))(''Authorization'' \<mapsto> ''Bearer '' @ t)"
    unfolding r' st' load_last by (simp add: update_conv' delete_conv')
  ultimately show ?thesis by auto
qed

lemmas auth_eval = applyAuthentication_def alloc_def Let_def deleteProp_def setProp_def load_def
  truthy_def strOf_def AList.delete_eq sampleStore_def sampleRequest_def bearerT1_def

theorem bearer_replaces_api_keys_witness:
  "applyAuthentication None sampleStore sampleRequest bearerT1 =
     (sampleRequest\<lparr>req_headers := 1\<rparr>,
      sampleStore @ [[(''Accept'', ''text/plain''), (''Authorization'', ''Bearer T1'')]]) \<and>
   ''X-API-Key'' \<notin> fst ` set (load (snd (applyAuthentication None sampleStore sampleRequest bearerT1)) 1) \<and>
   map_of (load (snd (applyAuthentication None sampleStore sampleRequest bearerT1)) 1) ''Authorization''
     = Some ''Bearer T1'' \<and>
   map_of (load (snd (applyAuthentication None sampleStore sampleRequest bearerT1)) 1) ''Accept''
     = map_of (load sampleStore 0) ''Accept''"
proof -
  have e: "applyAuthentication None sampleStore sampleRequest bearerT1 =
     (sampleRequest\<lparr>req_headers := 1\<rparr>,
      sampleStore @ [[(''Accept'', ''text/plain''), (''Authorization'', ''Bearer T1'')]])"
    by (simp add: auth_eval)
  have h1: "auth_type bearerT1 = ''bearer''" by (simp add: bearerT1_def)
  have h2: "auth_token bearerT1 = Some ''T1''" by (simp add: bearerT1_def)
  have h3: "''T1'' \<noteq> []" by simp
  have k: "''Accept'' \<notin> {''X-API-Key'', ''x-api-key'', ''X-Auth-Token'', ''x-auth-token'',
                    ''Authorization''}" by simp
  from bearer_replaces_api_keys[OF h1 h2 h3 e] k e show ?thesis
    by (simp add: sampleRequest_def)
qed

text \<open>
  Claim C10. When the type is \<open>apikey\<close>, \<open>bearer\<close>, \<open>basic\<close> or \<open>custom\<close> and a field that the
  type needs is absent or empty, the header object of the returned request is equal to
  the input's: nothing is set and nothing is deleted.
\<close>

theorem incomplete_credentials_keep_headers:
  assumes "(auth_type a = ''apikey'' \<and> \<not> (truthy (auth_key a) \<and> truthy (auth_value a))) \<or>
           (auth_type a = ''bearer'' \<and> \<not> truthy (auth_token a)) \<or>
           (auth_type a = ''basic'' \<and> \<not> (truthy (auth_username a) \<and> truthy (auth_password a))) \<or>
           (auth_type a = ''custom'' \<and> \<not> (truthy (auth_header a) \<and> truthy (auth_value a)))"
    and "applyAuthentication hb st r a = (r', st')"
  shows "load st' (req_headers r') = load st (req_headers r)"
proof -
  from assms(1) have "applyAuthentication hb st r a =
      (r\<lparr>req_headers := length st\<rparr>, st @ [load st (req_headers r)])"
    by (auto simp: applyAuthentication_def alloc_def Let_def)
  with assms(2) have "r' = r\<lparr>req_headers := length st\<rparr>" "st' = st @ [load st (req_headers r)]"
    by auto
  then show ?thesis by (simp add: load_last)
qed

theorem incomplete_credentials_keep_headers_witness:
  "load (snd (applyAuthentication None sampleStore sampleRequest bearerEmpty))
        (req_headers (fst (applyAuthentication None sampleStore sampleRequest bearerEmpty))) =
   [(''X-API-Key'', ''K''), (''Accept'', ''text/plain'')]"
proof -
  have h: "(auth_type bearerEmpty = ''apikey'' \<and> \<not> (truthy (auth_key bearerEmpty) \<and> truthy (auth_value bearerEmpty))) \<or>
           (auth_type bearerEmpty = ''bearer'' \<and> \<not> truthy (auth_token bearerEmpty)) \<or>
           (auth_type bearerEmpty = ''basic'' \<and> \<not> (truthy (auth_username bearerEmpty) \<and> truthy (auth_password bearerEmpty))) \<or>
           (auth_type bearerEmpty = ''custom'' \<and> \<not> (truthy (auth_header bearerEmpty) \<and> truthy (auth_value bearerEmpty)))"
    by (simp add: bearerEmpty_def truthy_def)
  have "load sampleStore (req_headers sampleRequest) = [(''X-API-Key'', ''K''), (''Accept'', ''text/plain'')]"
    by (simp add: load_def sampleStore_def sampleRequest_def)
  with incomplete_credentials_keep_headers[OF h surjective_pairing] show ?thesis by simp
qed

text \<open>
  Claim C8. A call of \<open>applyAuthentication\<close> on a request of a well-formed store returns
  a request whose header object is not the input's, and leaves the input's header object
  with the contents it had. A second call with the same request and configuration, in
  the store the first call left, returns a header object with the same contents as the
  first, and again leaves the input's as it was.
\<close>

theorem applyAuthentication_pure:
  assumes "req_headers r < length st"
    and "applyAuthentication hb st r a = (r1, st1)"
    and "applyAuthentication hb st1 r a = (r2, st2)"
  shows "load st2 (req_headers r2) = load st1 (req_headers r1) \<and>
         req_headers r1 \<noteq> req_headers r \<and> req_headers r2 \<noteq> req_headers r \<and>
         req_headers r2 \<noteq> req_headers r1 \<and>
         load st1 (req_headers r) = load st (req_headers r) \<and>
         load st2 (req_headers r) = load st (req_headers r) \<and>
         load st2 (req_headers r1) = load st1 (req_headers r1)"
proof -
  from applyAuthentication_shape[of hb st r a] assms(2) obtain hs1 where
    1: "r1 = r\<lparr>req_headers := length st\<rparr>" "st1 = st @ [hs1]" by auto
  from applyAuthentication_shape[of hb st1 r a] assms(3) obtain hs2 where
    2: "r2 = r\<lparr>req_headers := length st1\<rparr>" "st2 = st1 @ [hs2]" by auto
  have old: "load st1 (req_headers r) = load st (req_headers r)"
    unfolding 1 using assms(1) by (simp add: load_old)
  have "hs1 = hs2"
    using applyAuthentication_contents[OF old[symmetric], of hb a r1 hs1 r2 hs2] assms(2,3)
    unfolding 1 2 by simp
  then show ?thesis using assms(1) unfolding 1 2
    by (simp add: load_def nth_append)
qed

theorem applyAuthentication_pure_witness:
  "req_headers sampleRequest < length sampleStore \<and>
   load (snd (applyAuthentication None sampleStore sampleRequest bearerT1)) 0 =
     [(''X-API-Key'', ''K''), (''Accept'', ''text/plain'')] \<and>
   load (snd (applyAuthentication None (snd (applyAuthentication None sampleStore sampleRequest bearerT1))
               sampleRequest bearerT1)) 2 =
     [(''Accept'', ''text/plain''), (''Authorization'', ''Bearer T1'')] \<and>
   req_headers (fst (applyAuthentication None sampleStore sampleRequest bearerT1)) = 1"
proof -
  have h: "req_headers sampleRequest < length sampleStore"
    by (simp add: sampleStore_def sampleRequest_def)
  have e: "applyAuthentication None sampleStore sampleRequest bearerT1 =
     (sampleRequest\<lparr>req_headers := 1\<rparr>,
      sampleStore @ [[(''Accept'', ''text/plain''), (''Authorization'', ''Bearer T1'')]])"
    by (simp add: auth_eval)
  have l: "load (sampleStore @ [[(''Accept'', ''text/plain''), (''Authorization'', ''Bearer T1'')]]) (Suc 0)
     = [(''Accept'', ''text/plain''), (''Authorization'', ''Bearer T1'')]"
    by (simp add: load_def sampleStore_def)
  have z: "load sampleStore 0 = [(''X-API-Key'', ''K''), (''Accept'', ''text/plain'')]"
    by (simp add: load_def sampleStore_def)
  have n: "req_headers (fst (applyAuthentication None
             (snd (applyAuthentication None sampleStore sampleRequest bearerT1)) sampleRequest bearerT1)) = 2"
    using applyAuthentication_shape[of None "snd (applyAuthentication None sampleStore sampleRequest bearerT1)" sampleRequest bearerT1]
    unfolding e by (auto simp: sampleStore_def)
  from applyAuthentication_pure[where hb=None and a=bearerT1, OF h surjective_pairing surjective_pairing]
  show ?thesis using h unfolding n unfolding e
    by (simp add: l z sampleRequest_def)
qed

section \<open>Templated URLs\<close>

text \<open>
  Claim C2, as amended. For a request with the URL \<open>{{baseUrl}}/v1/items/{{id}}\<close> and the
  method \<open>GET\<close>, and no host name given, \<open>buildRequestSpec\<close> replaces both templates by
  \<open>example.com\<close>: the host is \<open>example.com\<close> and the path \<open>/v1/items/example.com\<close>. Nothing
  follows the last \<open>}}\<close> of the URL, so the path of the session name is \<open>/\<close>, the fall-back
  applies and the name is \<open>GET\<close> followed by the whole original URL.
\<close>

theorem templated_url_spec_and_name:
  assumes "req_url r = ''{{baseUrl}}/v1/items/{{id}}''" and "req_method r = ''GET''"
  shows "(\<exists>spec. buildRequestSpec st r None = Some spec \<and>
                spec_host spec = ''example.com'' \<and>
                spec_path spec = ''/v1/items/example.com'' \<and>
                spec_url spec = ''https://example.com/v1/items/example.com'') \<and>
         generateCompleteSessionName r = ''GET {{baseUrl}}/v1/items/{{id}}''"
proof -
  have t: "resolveTargetUrl ''{{baseUrl}}/v1/items/{{id}}'' None =
           ''https://example.com/v1/items/example.com''"
    by code_simp
  have p: "parseUrl ''https://example.com/v1/items/example.com'' =
      Some \<lparr>url_protocol = ''https:'', url_hostname = ''example.com'', url_port = None,
            url_pathname = ''/v1/items/example.com'', url_search = None\<rparr>"
    by code_simp
  have np: "normalizedPath ''{{baseUrl}}/v1/items/{{id}}'' = ''/''" by code_simp
  have fb: "stripSchemeHost ''{{baseUrl}}/v1/items/{{id}}'' = ''{{baseUrl}}/v1/items/{{id}}''"
    by code_simp
  have up: "toUpperCase ''GET'' = ''GET''" by code_simp
  have n: "generateCompleteSessionName r = ''GET {{baseUrl}}/v1/items/{{id}}''"
    unfolding generateCompleteSessionName_def assms np fb up by simp
  show ?thesis
    by (simp add: n buildRequestSpec_def assms(1) t p Let_def split: option.split prod.split)
qed

theorem templated_url_spec_and_name_witness:
  "map_option spec_host
     (buildRequestSpec sampleStore (sampleRequest\<lparr>req_url := ''{{baseUrl}}/v1/items/{{id}}''\<rparr>) None)
     = Some ''example.com'' \<and>
   map_option spec_path
     (buildRequestSpec sampleStore (sampleRequest\<lparr>req_url := ''{{baseUrl}}/v1/items/{{id}}''\<rparr>) None)
     = Some ''/v1/items/example.com'' \<and>
   generateCompleteSessionName (sampleRequest\<lparr>req_url := ''{{baseUrl}}/v1/items/{{id}}''\<rparr>)
     = ''GET {{baseUrl}}/v1/items/{{id}}''"
proof -
  have h1: "req_url (sampleRequest\<lparr>req_url := ''{{baseUrl}}/v1/items/{{id}}''\<rparr>) =
            ''{{baseUrl}}/v1/items/{{id}}''" by simp
  have h2: "req_method (sampleRequest\<lparr>req_url := ''{{baseUrl}}/v1/items/{{id}}''\<rparr>) = ''GET''"
    by (simp add: sampleRequest_def)
  from templated_url_spec_and_name[OF h1 h2, of sampleStore] show ?thesis by auto
qed

text \<open>
  Claim C2 as stated fails in its last part: the session name of the request is not
  \<open>GET /items/{{id}}\<close>.
\<close>

theorem templated_url_name_counterexample:
  "generateCompleteSessionName
     \<lparr>req_id = ''1'', req_name = ''A'', req_method = ''GET'',
      req_url = ''{{baseUrl}}/v1/items/{{id}}'', req_headers = (0::nat), req_body = None\<rparr>
   \<noteq> ''GET /items/{{id}}''"
  by code_simp

section \<open>Secret variables\<close>

text \<open>
  Claim C4 at a value of exactly twenty characters of the class and a key without
  keyword: the pattern accepts the value, the further test \<open>value.length > 20\<close> does not,
  and \<open>shouldBeSecret\<close> is false. With one character more it is true.
\<close>

theorem shouldBeSecret_twenty_characters:
  "matchesTokenPattern ''abcdefghij0123456789'' \<and>
   \<not> list_ex (\<lambda>keyword. includesStr (toLowerCase ''host'') keyword) SENSITIVE_KEYWORDS \<and>
   shouldBeSecret ''host'' ''abcdefghij0123456789'' = False \<and>
   shouldBeSecret ''host'' ''abcdefghij0123456789x'' = True"
  by code_simp

section \<open>The classifier when the text is not JSON\<close>

lemma detectFileType_returns:
  "\<exists>result. detectFileType parse conv content fileName = Inr result"
  unfolding detectFileType_def by (simp split: sum.split)

lemma detectFileTypeTry_parse_failure:
  "parse content = Inl e \<Longrightarrow> detectFileTypeTry parse conv content fileName = Inl e"
  unfolding detectFileTypeTry_def bindE_def by simp

lemma yamlUnsupported_differs: "yamlUnsupported \<noteq> notValidJson m"
  unfolding yamlUnsupported_def notValidJson_def by simp

text \<open>
  Claim C3, as amended. \<open>detectFileType\<close> never throws. When the text fails to parse,
  the result has type \<open>unknown\<close> and confidence 0; its message is the one about YAML
  exactly when the lowered file name ends in \<open>.yaml\<close> or \<open>.yml\<close>, or at least two of the
  four patterns match the text and the trimmed text starts with neither \<open>{\<close> nor \<open>[\<close>;
  otherwise it is the message about JSON with the text of the parser's error.
\<close>

theorem detectFileType_not_json:
  "(\<exists>result. detectFileType parse conv content fileName = Inr result) \<and>
   (\<forall>e. parse content = Inl e \<longrightarrow>
      (\<exists>result. detectFileType parse conv content fileName = Inr result \<and>
         ftr_type result = Unknown \<and> ftr_confidence result = 0 \<and>
         (ftr_details result = yamlUnsupported \<longleftrightarrow>
            endsWith (toLowerCase fileName) ''.yaml'' \<or> endsWith (toLowerCase fileName) ''.yml'' \<or>
            (2 \<le> indicatorCount content \<and> \<not> hasJsonIndicators content)) \<and>
         (ftr_details result \<noteq> yamlUnsupported \<longrightarrow>
            ftr_details result = notValidJson (message e))))"
proof (intro conjI allI impI)
  show "\<exists>result. detectFileType parse conv content fileName = Inr result"
    by (rule detectFileType_returns)
next
  fix e assume "parse content = Inl e"
  then have t: "detectFileTypeTry parse conv content fileName = Inl e"
    by (rule detectFileTypeTry_parse_failure)
  show "\<exists>result. detectFileType parse conv content fileName = Inr result \<and>
         ftr_type result = Unknown \<and> ftr_confidence result = 0 \<and>
         (ftr_details result = yamlUnsupported \<longleftrightarrow>
            endsWith (toLowerCase fileName) ''.yaml'' \<or> endsWith (toLowerCase fileName) ''.yml'' \<or>
            (2 \<le> indicatorCount content \<and> \<not> hasJsonIndicators content)) \<and>
         (ftr_details result \<noteq> yamlUnsupported \<longrightarrow>
            ftr_details result = notValidJson (message e))"
    unfolding detectFileType_def t isLikelyYAML_def
    using yamlUnsupported_differs[of "message e"] by auto
qed

theorem detectFileType_not_json_witness:
  "detectFileType sampleParse sampleConv ''title: x'' ''notes.txt'' =
     Inr \<lparr>ftr_type = Unknown, ftr_confidence = 0,
          ftr_details = notValidJson ''Unexpected token 't', \"title: x\" is not valid JSON''\<rparr> \<and>
   indicatorCount ''title: x'' = 1"
proof -
  have p: "sampleParse ''title: x'' =
       Inl (SyntaxError ''Unexpected token 't', \"title: x\" is not valid JSON'')"
    by code_simp
  have n: "indicatorCount ''title: x'' = 1" by code_simp
  have x: "\<not> endsWith (toLowerCase ''notes.txt'') ''.yaml''"
          "\<not> endsWith (toLowerCase ''notes.txt'') ''.yml''" by code_simp+
  from detectFileType_not_json[of sampleParse sampleConv "''title: x''" "''notes.txt''"] p
  obtain result where r: "detectFileType sampleParse sampleConv ''title: x'' ''notes.txt'' = Inr result"
    "ftr_type result = Unknown" "ftr_confidence result = 0"
    "ftr_details result = yamlUnsupported \<longleftrightarrow>
            endsWith (toLowerCase ''notes.txt'') ''.yaml'' \<or> endsWith (toLowerCase ''notes.txt'') ''.yml'' \<or>
            (2 \<le> indicatorCount ''title: x'' \<and> \<not> hasJsonIndicators ''title: x'')"
    "ftr_details result \<noteq> yamlUnsupported \<longrightarrow>
            ftr_details result = notValidJson ''Unexpected token 't', \"title: x\" is not valid JSON''"
    by auto
  from r(4,5) x n have "ftr_details result = notValidJson ''Unexpected token 't', \"title: x\" is not valid JSON''"
    by simp
  with r(1,2,3) n show ?thesis by (cases result) simp
qed

text \<open>
  Claim C3 as stated fails for a file named \<open>api.yaml\<close>: the text \<open>openapi 3\<close> is not JSON
  and none of the four patterns matches it, yet the message is the one about YAML.
\<close>

theorem detectFileType_yaml_extension_counterexample:
  "sampleParse ''openapi 3'' =
     Inl (SyntaxError ''Unexpected token 'o', \"openapi 3\" is not valid JSON'') \<and>
   detectFileType sampleParse sampleConv ''openapi 3'' ''api.yaml'' =
     Inr \<lparr>ftr_type = Unknown, ftr_confidence = 0, ftr_details = yamlUnsupported\<rparr> \<and>
   indicatorCount ''openapi 3'' = 0"
proof -
  have p: "sampleParse ''openapi 3'' =
       Inl (SyntaxError ''Unexpected token 'o', \"openapi 3\" is not valid JSON'')"
    by code_simp
  have n: "indicatorCount ''openapi 3'' = 0" by code_simp
  have x: "endsWith (toLowerCase ''api.yaml'') ''.yaml''" by code_simp
  show ?thesis
    unfolding detectFileType_def detectFileTypeTry_parse_failure[where parse=sampleParse and content="''openapi 3''", OF p] isLikelyYAML_def
    using p n x by simp
qed

section \<open>The environment detector\<close>

lemma getProp_no_index:
  assumes "arrayIndex k = None" and "k \<noteq> ''length''" and "k \<noteq> ''values''"
  shows "getProp (J (JArr xs)) k = Inr Undefined" and "getProp (J (JStr s)) k = Inr Undefined"
  using assms by (simp_all add: element_def)

lemma arrayIndex_names:
  "arrayIndex ''name'' = None" "arrayIndex ''values'' = None"
  "arrayIndex ''_postman_variable_scope'' = None" "arrayIndex ''_postman_exported_at'' = None"
  by (simp_all add: arrayIndex_def isDigit_def)

lemma lookupV_string:
  "truthyV (lookupV ps k) \<and> typeof (lookupV ps k) = ''string'' \<longleftrightarrow>
     (\<exists>s. map_of ps k = Some (JStr s) \<and> s \<noteq> [])"
proof (cases "map_of ps k")
  case None
  then show ?thesis by (simp add: lookupV_def)
next
  case (Some v)
  then show ?thesis by (cases v) (simp_all add: lookupV_def)
qed

lemma lookupV_array:
  "truthyV (lookupV ps k) \<and> isArray (lookupV ps k) \<longleftrightarrow> (\<exists>xs. map_of ps k = Some (JArr xs))"
proof (cases "map_of ps k")
  case None
  then show ?thesis by (simp add: lookupV_def)
next
  case (Some v)
  then show ?thesis by (cases v) (simp_all add: lookupV_def)
qed

lemma lookupV_eq: "lookupV ps k = J v \<longleftrightarrow> map_of ps k = Some v"
  by (cases "map_of ps k") (simp_all add: lookupV_def)

lemma isPostmanEnvironment_object:
  assumes "parse content = Inr (JObj ps)"
  shows "isPostmanEnvironment parse content fileName \<longleftrightarrow>
     (truthyV (lookupV ps ''name'') \<and> typeof (lookupV ps ''name'') = ''string'') \<and>
     (truthyV (lookupV ps ''values'') \<and> isArray (lookupV ps ''values'')) \<and>
     (lookupV ps ''_postman_variable_scope'' = J (JStr ''environment'') \<or>
      (truthyV (lookupV ps ''_postman_exported_at'') \<and>
       typeof (lookupV ps ''_postman_exported_at'') = ''string'')) \<and>
     (includesStr (toLowerCase fileName) ''environment'' \<or>
      includesStr (toLowerCase fileName) ''env'')"
  by (auto simp add: isPostmanEnvironment_def isPostmanEnvironmentTry_def bindE_def assms Let_def)

lemma isPostmanEnvironment_other:
  assumes "\<And>ps. parse content \<noteq> Inr (JObj ps)"
  shows "\<not> isPostmanEnvironment parse content fileName"
proof (cases "parse content")
  case (Inl e)
  then show ?thesis
    by (simp add: isPostmanEnvironment_def isPostmanEnvironmentTry_def bindE_def)
next
  case (Inr data)
  show ?thesis
  proof (cases data)
    case (JObj ps)
    with assms Inr show ?thesis by blast
  qed (use Inr in \<open>simp_all add: isPostmanEnvironment_def isPostmanEnvironmentTry_def bindE_def
                      element_def arrayIndex_names\<close>)
qed

text \<open>
  Claim C5, as amended. \<open>isPostmanEnvironment\<close> is true exactly when the text parses to
  an object with a nonempty string \<open>name\<close> and an array \<open>values\<close>, the object has
  \<open>_postman_variable_scope\<close> equal to \<open>environment\<close> or a nonempty string
  \<open>_postman_exported_at\<close>, and the lowered file name contains \<open>environment\<close> or \<open>env\<close>. In
  every other case, a text that does not parse among them, it is false.
\<close>

theorem isPostmanEnvironment_iff:
  "isPostmanEnvironment parse content fileName \<longleftrightarrow>
     (\<exists>ps name vals.
        parse content = Inr (JObj ps) \<and>
        map_of ps ''name'' = Some (JStr name) \<and> name \<noteq> [] \<and>
        map_of ps ''values'' = Some (JArr vals) \<and>
        (map_of ps ''_postman_variable_scope'' = Some (JStr ''environment'') \<or>
         (\<exists>t. map_of ps ''_postman_exported_at'' = Some (JStr t) \<and> t \<noteq> [])) \<and>
        (includesStr (toLowerCase fileName) ''environment'' \<or>
         includesStr (toLowerCase fileName) ''env''))"
proof (cases "\<exists>ps. parse content = Inr (JObj ps)")
  case True
  then obtain ps where ps: "parse content = Inr (JObj ps)" by blast
  show ?thesis
    unfolding isPostmanEnvironment_object[where parse=parse and content=content, OF ps]
      lookupV_string lookupV_array lookupV_eq
    using ps by auto
next
  case False
  then have "\<not> isPostmanEnvironment parse content fileName"
    by (intro isPostmanEnvironment_other) blast
  with False show ?thesis by blast
qed

theorem isPostmanEnvironment_iff_witness:
  "isPostmanEnvironment sampleParse environmentText ''dev.postman_environment.json'' \<and>
   \<not> isPostmanEnvironment sampleParse environmentText ''dev.json''"
proof -
  have p: "sampleParse environmentText = Inr environmentDoc"
    unfolding sampleParse_def by code_simp
  have f1: "includesStr (toLowerCase ''dev.postman_environment.json'') ''environment''"
    by code_simp
  have f2: "\<not> includesStr (toLowerCase ''dev.json'') ''environment''"
           "\<not> includesStr (toLowerCase ''dev.json'') ''env''" by code_simp+
  have m: "map_of [(''name'', JStr ''Dev''),
           (''values'', JArr [JObj [(''key'', JStr ''api_token''),
                                    (''value'', JStr ''abcdef0123456789ABCDEF01'')]]),
           (''_postman_variable_scope'', JStr ''environment'')] ''name'' = Some (JStr ''Dev'')"
    by simp
  show ?thesis
    unfolding isPostmanEnvironment_iff p environmentDoc_def
    using f1 f2 by simp
qed

text \<open>
  Claim C5 as stated fails for a document whose \<open>name\<close> is the empty string: it has a
  string \<open>name\<close>, an array \<open>values\<close> and the scope \<open>environment\<close>, and the file name contains
  \<open>environment\<close>, yet the detector is false.
\<close>

theorem isPostmanEnvironment_empty_name_counterexample:
  "sampleParse unnamedEnvironmentText =
     Inr (JObj [(''name'', JStr []), (''values'', JArr []),
                (''_postman_variable_scope'', JStr ''environment'')]) \<and>
   includesStr (toLowerCase ''dev.postman_environment.json'') ''environment'' \<and>
   \<not> isPostmanEnvironment sampleParse unnamedEnvironmentText ''dev.postman_environment.json''"
proof -
  have p: "sampleParse unnamedEnvironmentText = Inr unnamedEnvironmentDoc"
    unfolding sampleParse_def by code_simp
  have f1: "includesStr (toLowerCase ''dev.postman_environment.json'') ''environment''"
    by code_simp
  have "\<not> isPostmanEnvironment sampleParse unnamedEnvironmentText ''dev.postman_environment.json''"
    unfolding isPostmanEnvironment_def isPostmanEnvironmentTry_def bindE_def p unnamedEnvironmentDoc_def
    by (simp add: lookupV_def)
  with p f1 show ?thesis unfolding unnamedEnvironmentDoc_def by simp
qed

section \<open>The Postman parser on a collection of one request\<close>

lemma collection_request:
  "parsePostmanRequest conv
     (JObj [(''name'', JStr ''A''),
            (''request'', JObj [(''method'', JStr ''get''), (''url'', JStr ''https://a.com/x?q=1'')])]) =
   Some \<lparr>pr_id = GeneratedId ''GET'', pr_name = JStr ''A'', pr_method = ''GET'',
         pr_url = JStr ''https://a.com/x?q=1'', pr_headers = [], pr_body = None, pr_auth = None\<rparr>"
  by (simp add: parsePostmanRequest_def parsePostmanRequestTry_def bindE_def lookupV_def
        extractUrl_def extractMethod_def extractBody_def toUpperCase_def toUpperChar_def)

lemma collection_parsed:
  assumes "parse collectionText = Inr collectionDoc"
  shows "parsePostmanCollection parse conv collectionText =
     Inr \<lparr>pc_name = JStr ''X'', pc_description = Undefined,
          pc_requests = [\<lparr>pr_id = GeneratedId ''GET'', pr_name = JStr ''A'', pr_method = ''GET'',
                           pr_url = JStr ''https://a.com/x?q=1'', pr_headers = [],
                           pr_body = None, pr_auth = None\<rparr>],
          pc_auth = Undefined\<rparr>"
  by (simp add: parsePostmanCollection_def parsePostmanCollectionTry_def bindE_def assms
        collectionDoc_def lookupV_def collection_request)

text \<open>
  Claim C6, as amended. The collection with the one item named \<open>A\<close> parses to exactly
  one request; its method is \<open>GET\<close>, its name is the item's name \<open>A\<close> and its URL is
  \<open>https://a.com/x?q=1\<close>; the session name of a request with this method and this URL is
  \<open>GET /x\<close>.
\<close>

theorem postman_single_request:
  assumes "parse collectionText = Inr collectionDoc"
  shows "\<exists>c r. parsePostmanCollection parse conv collectionText = Inr c \<and>
           pc_requests c = [r] \<and>
           pr_method r = ''GET'' \<and> pr_name r = JStr ''A'' \<and>
           pr_url r = JStr ''https://a.com/x?q=1'' \<and>
           (\<forall>q :: 'h request. req_method q = pr_method r \<and> JStr (req_url q) = pr_url r \<longrightarrow>
                generateCompleteSessionName q = ''GET /x'')"
proof -
  have n: "\<And>q :: 'h request. req_method q = ''GET'' \<Longrightarrow> req_url q = ''https://a.com/x?q=1'' \<Longrightarrow>
             generateCompleteSessionName q = ''GET /x''"
  proof -
    fix q :: "'h request"
    assume q: "req_method q = ''GET''" "req_url q = ''https://a.com/x?q=1''"
    have np: "normalizedPath ''https://a.com/x?q=1'' = ''/x''" by code_simp
    have up: "toUpperCase ''GET'' = ''GET''" by code_simp
    show "generateCompleteSessionName q = ''GET /x''"
      unfolding generateCompleteSessionName_def q np up by simp
  qed
  show ?thesis
    unfolding collection_parsed[where parse=parse, OF assms] using n by simp
qed

theorem postman_single_request_witness:
  "sampleParse collectionText = Inr collectionDoc \<and>
   map pr_name (pc_requests (projr (parsePostmanCollection sampleParse sampleConv collectionText)))
     = [JStr ''A''] \<and>
   map pr_method (pc_requests (projr (parsePostmanCollection sampleParse sampleConv collectionText)))
     = [''GET''] \<and>
   generateCompleteSessionName
     \<lparr>req_id = ''1'', req_name = ''A'', req_method = ''GET'', req_url = ''https://a.com/x?q=1'',
      req_headers = ([] :: headers), req_body = None\<rparr> = ''GET /x''"
proof -
  have p: "sampleParse collectionText = Inr collectionDoc" by code_simp
  let ?q = "\<lparr>req_id = ''1'', req_name = ''A'', req_method = ''GET'', req_url = ''https://a.com/x?q=1'',
      req_headers = ([] :: headers), req_body = None\<rparr>"
  from postman_single_request[where parse=sampleParse and conv=sampleConv and 'h=headers, OF p]
  obtain c r where c: "parsePostmanCollection sampleParse sampleConv collectionText = Inr c"
    "pc_requests c = [r]" "pr_method r = ''GET''" "pr_name r = JStr ''A''"
    "pr_url r = JStr ''https://a.com/x?q=1''"
    and n: "\<forall>q :: headers request. req_method q = pr_method r \<and> JStr (req_url q) = pr_url r \<longrightarrow>
                generateCompleteSessionName q = ''GET /x''"
    by blast
  from n c(3,5) have "generateCompleteSessionName ?q = ''GET /x''" by simp
  with p c show ?thesis by simp
qed

text \<open>
  Claim C6 as stated fails in the name: the item of the collection has the name \<open>A\<close>,
  which the parser keeps, so the name is not the default \<open>GET https://a.com/x?q=1\<close>.
\<close>

theorem postman_request_name_counterexample:
  "parsePostmanCollection sampleParse sampleConv collectionText =
     Inr \<lparr>pc_name = JStr ''X'', pc_description = Undefined,
          pc_requests = [\<lparr>pr_id = GeneratedId ''GET'', pr_name = JStr ''A'', pr_method = ''GET'',
                           pr_url = JStr ''https://a.com/x?q=1'', pr_headers = [],
                           pr_body = None, pr_auth = None\<rparr>],
          pc_auth = Undefined\<rparr> \<and>
   JStr ''A'' \<noteq> JStr ''GET https://a.com/x?q=1''"
  by code_simp

section \<open>Schema examples: termination\<close>

subsection \<open>Settling\<close>

lemma settlesI: "r \<noteq> OutOfFuel \<Longrightarrow> (\<And>m. n \<le> m \<Longrightarrow> f m = r) \<Longrightarrow> settles f"
  unfolding settles_def by blast

lemma settles_const: "r \<noteq> OutOfFuel \<Longrightarrow> settles (\<lambda>m. r)"
  by (rule settlesI[where n=0]) simp_all

lemma settles_if:
  "(c \<Longrightarrow> settles f) \<Longrightarrow> (\<not> c \<Longrightarrow> settles g) \<Longrightarrow> settles (\<lambda>m. if c then f m else g m)"
  by (cases c) simp_all

lemma settles_bindO:
  assumes f: "settles f"
    and g: "\<And>a n. (\<And>m. n \<le> m \<Longrightarrow> f m = Returns a) \<Longrightarrow> settles (g a)"
  shows "settles (\<lambda>m. bindO (f m) (\<lambda>a. g a m))"
proof -
  from f obtain n r where r: "r \<noteq> OutOfFuel" and fr: "\<And>m. n \<le> m \<Longrightarrow> f m = r"
    unfolding settles_def by blast
  show ?thesis
  proof (cases r)
    case OutOfFuel
    with r show ?thesis by simp
  next
    case (Throws e)
    show ?thesis
      by (rule settlesI[where n=n and r="Throws e"]) (simp_all add: fr Throws bindO_def)
  next
    case (Returns a)
    from g[of n a] fr Returns obtain k s where s: "s \<noteq> OutOfFuel"
      and gs: "\<And>m. k \<le> m \<Longrightarrow> g a m = s"
      unfolding settles_def by blast
    show ?thesis
      by (rule settlesI[where n="max n k" and r=s]) (simp_all add: s fr gs Returns bindO_def)
  qed
qed

text \<open>A function that is defined by its value at \<open>Suc m\<close> settles when that value does.\<close>

lemma settles_Suc:
  assumes "settles (\<lambda>m. f (Suc m))"
  shows "settles f"
proof -
  from assms obtain n r where r: "r \<noteq> OutOfFuel" and fr: "\<And>m. n \<le> m \<Longrightarrow> f (Suc m) = r"
    unfolding settles_def by blast
  show ?thesis
  proof (rule settlesI[where n="Suc n" and r=r])
    fix m assume "Suc n \<le> m"
    then obtain k where "m = Suc k" "n \<le> k" by (cases m) auto
    with fr show "f m = r" by simp
  qed (rule r)
qed

lemma bindO_Returns:
  "bindO x f = Returns y \<longleftrightarrow> (\<exists>a. x = Returns a \<and> f a = Returns y)"
  by (cases x) (simp_all add: bindO_def)

subsection \<open>The references of the parts of a document\<close>

lemma finite_allRefs: "finite (allRefs v)"
  by (induction v rule: allRefs.induct) (auto split: option.splits json.splits)

lemma allRefs_member:
  "map_of ps k = Some v \<Longrightarrow> allRefs v \<subseteq> allRefs (JObj ps)"
  by (auto dest!: map_of_SomeD)

lemma size_member: "map_of ps k = Some v \<Longrightarrow> size v < size (JObj ps)"
  by (induction ps) (auto split: if_splits)

lemma allRefs_element: "x \<in> set xs \<Longrightarrow> allRefs x \<subseteq> allRefs (JArr xs)"
  by auto

lemma size_element: "x \<in> set xs \<Longrightarrow> size x < size (JArr xs)"
  by (induction xs) auto

lemma part_primitive: "\<not> isObject c \<Longrightarrow> part c v"
  by (simp add: part_def)

lemma part_lookupV: "part (jsonOf (lookupV ps k)) (JObj ps)"
proof (cases "map_of ps k")
  case None
  then show ?thesis by (simp add: lookupV_def part_def)
next
  case (Some v)
  with allRefs_member[OF Some] size_member[OF Some] show ?thesis
    by (simp add: lookupV_def part_def)
qed

lemma part_element: "part (jsonOf (element xs k)) (JArr xs)"
proof (cases "arrayIndex k")
  case None
  then show ?thesis by (simp add: element_def part_def)
next
  case (Some i)
  show ?thesis
  proof (cases "i < length xs")
    case True
    then have "xs ! i \<in> set xs" by simp
    from allRefs_element[OF this] size_element[OF this] Some True show ?thesis
      by (simp add: element_def part_def)
  next
    case False
    with Some show ?thesis by (simp add: element_def part_def)
  qed
qed

lemma part_characters: "part (jsonOf (element (map (\<lambda>c. JStr [c]) s) k)) v"
proof -
  have "\<not> isObject (jsonOf (element (map (\<lambda>c. JStr [c]) s) k))"
    by (auto simp: element_def split: option.splits)
  then show ?thesis by (rule part_primitive)
qed

lemma part_propOf: "part (jsonOf (propOf v k)) v"
proof (cases v)
  case (JObj ps)
  then show ?thesis using part_lookupV[of ps k] by (simp add: propOf_def propV_def)
next
  case (JArr xs)
  then show ?thesis using part_element[of xs k]
    by (simp add: propOf_def propV_def part_def)
next
  case (JStr s)
  then show ?thesis using part_characters[of s k "JStr s"]
    by (simp add: propOf_def propV_def part_def)
qed (simp_all add: propOf_def propV_def part_def cannotRead_def)

lemma part_trans: "part c v \<Longrightarrow> isObject c \<Longrightarrow> part d c \<Longrightarrow> part d v"
  by (auto simp: part_def)

lemma part_entries:
  assumes "s \<in> snd ` set (objectEntries (J p))"
  shows "part s p"
proof (cases p)
  case (JObj ps)
  with assms obtain k where "(k, s) \<in> set ps" by auto
  then have "allRefs s \<subseteq> allRefs (JObj ps)" "size s < size (JObj ps)"
    by (auto, induction ps) auto
  with JObj show ?thesis by (simp add: part_def)
next
  case (JArr xs)
  with assms have "s \<in> set xs" by (auto dest: set_zip_rightD)
  from allRefs_element[OF this] size_element[OF this] JArr show ?thesis by (simp add: part_def)
next
  case (JStr t)
  with assms have "\<not> isObject s" by (auto dest!: set_zip_rightD)
  then show ?thesis by (rule part_primitive)
qed (use assms in simp_all)


subsection \<open>Resolving a reference\<close>

lemma allRefs_primitive: "\<not> isObject c \<Longrightarrow> allRefs c = {}"
  by (cases c) simp_all

lemma allRefs_part: "part c v \<Longrightarrow> allRefs c \<subseteq> allRefs v"
  by (cases "isObject c") (simp_all add: part_def allRefs_primitive)

lemma walkPath_refs: "allRefs (walkPath current path) \<subseteq> allRefs current"
proof (induction path arbitrary: current)
  case Nil
  show ?case by simp
next
  case (Cons segment path)
  have "allRefs (walkPath (jsonOf (propOf current segment)) path) \<subseteq> allRefs current"
    using Cons[of "jsonOf (propOf current segment)"] allRefs_part[OF part_propOf[of current segment]]
    by blast
  then show ?case by simp
qed

lemma refString_Some: "refString v = Some r \<longleftrightarrow> v = J (JStr r)"
  by (cases v rule: refString.cases) auto

lemma ref_in_allRefs:
  assumes "isObject current" and "refString (propOf current ''$ref'') = Some r"
  shows "r \<in> allRefs current"
proof (cases current)
  case (JObj ps)
  with assms(2) have "lookupV ps ''$ref'' = J (JStr r)"
    by (simp add: propOf_def propV_def refString_Some)
  then have "map_of ps ''$ref'' = Some (JStr r)"
    by (cases "map_of ps ''$ref''") (simp_all add: lookupV_def)
  with JObj show ?thesis by simp
next
  case (JArr xs)
  with assms(2) show ?thesis
    by (simp add: propOf_def propV_def refString_Some element_def arrayIndex_def isDigit_def)
qed (use assms(1) in simp_all)

lemma allRefs_placeholder: "allRefs (circularPlaceholder r) = {}"
  by (simp add: circularPlaceholder_def)

lemma resolveSchemaRef_refs:
  "resolveSchemaRef n spec visited ref = Returns v \<Longrightarrow> allRefs v \<subseteq> allRefs spec"
proof (induction n arbitrary: visited ref)
  case 0
  then show ?case by simp
next
  case (Suc n)
  from Suc.prems obtain r where r: "refString ref = Some r"
    by (cases "refString ref") simp_all
  let ?current = "walkPath spec (split (drop 2 r) ''/'')"
  show ?case
  proof (cases "r \<in> set visited \<or> \<not> startsWith r ''#/''")
    case True
    with Suc.prems r show ?thesis by (auto simp: allRefs_placeholder split: if_splits)
  next
    case False
    show ?thesis
    proof (cases "isObject ?current \<and> truthyV (propOf ?current ''$ref'')")
      case True
      with False Suc.prems r
      have "resolveSchemaRef n spec (r # visited) (propOf ?current ''$ref'') = Returns v"
        by (simp add: Let_def)
      then show ?thesis by (rule Suc.IH)
    next
      case False2: False
      with False Suc.prems r have "v = ?current" by (auto simp: Let_def)
      then show ?thesis using walkPath_refs[of spec] by simp
    qed
  qed
qed

lemma resolveSchemaRef_string:
  "resolveSchemaRef n spec visited ref = Returns v \<Longrightarrow> \<exists>r. ref = J (JStr r)"
  by (cases n; cases "refString ref") (simp_all add: refString_Some)

lemma resolveSchemaRef_settles: "settles (\<lambda>m. resolveSchemaRef m spec visited ref)"
proof (induction "card ((allRefs spec \<union> refOf ref) - set visited)" arbitrary: visited ref
       rule: less_induct)
  case less
  show ?case
  proof (rule settles_Suc, cases "refString ref")
    case None
    then show "settles (\<lambda>m. resolveSchemaRef (Suc m) spec visited ref)"
      by (simp add: settles_const)
  next
    case (Some r)
    let ?current = "walkPath spec (split (drop 2 r) ''/'')"
    let ?next = "propOf ?current ''$ref''"
    show "settles (\<lambda>m. resolveSchemaRef (Suc m) spec visited ref)"
    proof (cases "r \<in> set visited \<or> \<not> startsWith r ''#/'' \<or>
                  \<not> (isObject ?current \<and> truthyV ?next)")
      case True
      then have "\<exists>x. \<forall>m. resolveSchemaRef (Suc m) spec visited ref = Returns x"
        using Some by (auto simp: Let_def)
      then obtain x where "\<And>m. resolveSchemaRef (Suc m) spec visited ref = Returns x" by blast
      then show ?thesis by (simp add: settles_const)
    next
      case False
      then have step: "\<And>m. resolveSchemaRef (Suc m) spec visited ref =
                          resolveSchemaRef m spec (r # visited) ?next"
        using Some by (simp add: Let_def)
      have fin: "finite ((allRefs spec \<union> refOf ref) - set visited)"
        by (simp add: finite_allRefs refOf_def split: option.splits)
      have inside: "refOf ?next \<subseteq> allRefs spec"
      proof -
        { fix r' assume "refString ?next = Some r'"
          with False have "r' \<in> allRefs ?current" by (intro ref_in_allRefs) simp_all
          with walkPath_refs[of spec] have "r' \<in> allRefs spec" by blast }
        then show ?thesis by (auto simp: refOf_def split: option.splits)
      qed
      have "(allRefs spec \<union> refOf ?next) - set (r # visited)
              \<subset> (allRefs spec \<union> refOf ref) - set visited"
        using inside False Some by (auto simp: refOf_def)
      from psubset_card_mono[OF fin this]
      have "settles (\<lambda>m. resolveSchemaRef m spec (r # visited) ?next)"
        by (rule less)
      then show ?thesis unfolding step .
    qed
  qed
qed


subsection \<open>The set \<open>visited\<close> only grows\<close>

lemma loopProperties_visited:
  assumes "\<And>s v e v'. g s v = Returns (e, v') \<Longrightarrow> set v \<subseteq> set v'"
  shows "loopProperties g entries obj visited = Returns (obj', v') \<Longrightarrow> set visited \<subseteq> set v'"
proof (induction entries arbitrary: obj visited)
  case Nil
  then show ?case by simp
next
  case (Cons entry rest)
  from Cons.prems obtain res where
    1: "g (snd entry) visited = Returns res" and
    2: "loopProperties g rest
          (if fst res \<noteq> ExJson JNull then setEx (fst entry) (fst res) obj else obj) (snd res)
        = Returns (obj', v')"
    by (auto simp: bindO_Returns)
  from 1 assms[of "snd entry" visited "fst res" "snd res"] have "set visited \<subseteq> set (snd res)"
    by simp
  with Cons.IH[OF 2] show ?case by blast
qed

lemma loopRequired_skip:
  assumes "ToString conv (J requiredProp) = Inr name"
    and "\<not> (\<not> (name \<in> fst ` set obj \<or> inh name) \<and> truthyV properties \<and>
             truthyV (propV properties name))"
  shows "loopRequired g conv inh properties (requiredProp # rest) obj visited =
         loopRequired g conv inh properties rest obj visited"
  using assms by auto

lemma loopRequired_take:
  assumes "ToString conv (J requiredProp) = Inr name"
    and "\<not> (name \<in> fst ` set obj \<or> inh name) \<and> truthyV properties \<and>
         truthyV (propV properties name)"
  shows "loopRequired g conv inh properties (requiredProp # rest) obj visited =
         bindO (g (jsonOf (propV properties name)) visited) (\<lambda>res.
           loopRequired g conv inh properties rest
             (setEx name (if fst res \<noteq> ExJson JNull then fst res
                          else ExJson (JStr ''required_value'')) obj) (snd res))"
  using assms by auto

lemma loopRequired_visited:
  assumes "\<And>s v e v'. g s v = Returns (e, v') \<Longrightarrow> set v \<subseteq> set v'"
  shows "loopRequired g conv inh properties required obj visited = Returns (obj', v')
         \<Longrightarrow> set visited \<subseteq> set v'"
proof (induction required arbitrary: obj visited)
  case Nil
  then show ?case by simp
next
  case (Cons requiredProp rest)
  from Cons.prems obtain name where n: "ToString conv (J requiredProp) = Inr name"
    by (cases "ToString conv (J requiredProp)") simp_all
  show ?case
  proof (cases "\<not> (name \<in> fst ` set obj \<or> inh name) \<and> truthyV properties \<and>
                truthyV (propV properties name)")
    case True
    from Cons.prems obtain res where
      1: "g (jsonOf (propV properties name)) visited = Returns res" and
      2: "loopRequired g conv inh properties rest
            (setEx name (if fst res \<noteq> ExJson JNull then fst res
                         else ExJson (JStr ''required_value'')) obj) (snd res)
          = Returns (obj', v')"
      unfolding loopRequired_take[where inh=inh and obj=obj and properties=properties, OF n True] bindO_Returns by blast
    from 1 assms[of "jsonOf (propV properties name)" visited "fst res" "snd res"]
    have "set visited \<subseteq> set (snd res)" by simp
    with Cons.IH[OF 2] show ?thesis by blast
  next
    case False
    from Cons.prems have "loopRequired g conv inh properties rest obj visited = Returns (obj', v')"
      unfolding loopRequired_skip[where inh=inh and obj=obj and properties=properties, OF n False] .
    then show ?thesis by (rule Cons.IH)
  qed
qed

lemma generateExampleFromSchema_visited:
  "generateExampleFromSchema n conv pos inh spec schema visited = Returns (e, v')
   \<Longrightarrow> set visited \<subseteq> set v'"
proof (induction n arbitrary: schema visited e v')
  case 0
  then show ?case by simp
next
  case (Suc n)
  note IH = Suc.IH
  let ?G = "generateExampleFromSchema n conv pos inh spec"
  have mono: "\<And>s v e v'. ?G s v = Returns (e, v') \<Longrightarrow> set v \<subseteq> set v'"
    by (rule IH)
  consider (none) "\<not> isObject schema"
    | (ref) "isObject schema" "truthyV (propOf schema ''$ref'')"
    | (arr) "isObject schema" "\<not> truthyV (propOf schema ''$ref'')"
        "propOf schema ''example'' = Undefined" "propOf schema ''type'' = J (JStr ''array'')"
    | (obj) "isObject schema" "\<not> truthyV (propOf schema ''$ref'')"
        "propOf schema ''example'' = Undefined" "propOf schema ''type'' = J (JStr ''object'')"
    | (leaf) "isObject schema" "\<not> truthyV (propOf schema ''$ref'')"
        "propOf schema ''example'' \<noteq> Undefined \<or>
         (propOf schema ''type'' \<noteq> J (JStr ''array'') \<and> propOf schema ''type'' \<noteq> J (JStr ''object''))"
    by blast
  then show ?case
  proof cases
    case none
    with Suc.prems show ?thesis by simp
  next
    case ref
    with Suc.prems have "v' = visited \<or>
        (\<exists>a. ?G a (stringOf (propOf schema ''$ref'') # visited) = Returns (e, v'))"
      by (auto simp: bindO_Returns split: if_splits)
    then show ?thesis
    proof
      assume "v' = visited"
      then show ?thesis by simp
    next
      assume "\<exists>a. ?G a (stringOf (propOf schema ''$ref'') # visited) = Returns (e, v')"
      then obtain a where "?G a (stringOf (propOf schema ''$ref'') # visited) = Returns (e, v')"
        by blast
      from IH[OF this] show ?thesis by auto
    qed
  next
    case arr
    with Suc.prems have "v' = visited \<or>
        (\<exists>res. ?G (jsonOf (propOf schema ''items'')) visited = Returns (res, v'))"
      by (auto simp: bindO_Returns split: if_splits)
    then show ?thesis
    proof
      assume "v' = visited"
      then show ?thesis by simp
    next
      assume "\<exists>res. ?G (jsonOf (propOf schema ''items'')) visited = Returns (res, v')"
      then obtain res where "?G (jsonOf (propOf schema ''items'')) visited = Returns (res, v')"
        by blast
      from IH[OF this] show ?thesis .
    qed
  next
    case leaf
    with Suc.prems show ?thesis by (auto split: if_splits)
  next
    case obj
    with Suc.prems obtain res1 res2 where
      1: "(if truthyV (propOf schema ''properties'')
           then loopProperties ?G (objectEntries (propOf schema ''properties'')) [] visited
           else Returns ([], visited)) = Returns res1" and
      2: "(if truthyV (propOf schema ''required'') \<and> isArray (propOf schema ''required'')
           then loopRequired ?G conv inh (propOf schema ''properties'')
                  (map snd (objectEntries (propOf schema ''required''))) (fst res1) (snd res1)
           else Returns res1) = Returns res2" and
      3: "v' = snd res2"
      by (auto simp: bindO_Returns)
    have a: "set visited \<subseteq> set (snd res1)"
    proof (cases "truthyV (propOf schema ''properties'')")
      case True
      with 1 have "loopProperties ?G (objectEntries (propOf schema ''properties'')) [] visited
                   = Returns (fst res1, snd res1)" by simp
      then show ?thesis
        by (rule loopProperties_visited[where g="?G", rotated]) (rule mono)
    next
      case False
      with 1 show ?thesis by auto
    qed
    have b: "set (snd res1) \<subseteq> set (snd res2)"
    proof (cases "truthyV (propOf schema ''required'') \<and> isArray (propOf schema ''required'')")
      case True
      with 2 have "loopRequired ?G conv inh (propOf schema ''properties'')
                  (map snd (objectEntries (propOf schema ''required''))) (fst res1) (snd res1)
                   = Returns (fst res2, snd res2)" by simp
      then show ?thesis
        by (rule loopRequired_visited[where g="?G", rotated]) (rule mono)
    next
      case False
      with 2 show ?thesis by auto
    qed
    from a b 3 show ?thesis by blast
  qed
qed

subsection \<open>The loops settle when the generator settles on the parts\<close>

lemma loopProperties_settles:
  assumes mono: "\<And>m s v e v'. G m s v = Returns (e, v') \<Longrightarrow> set v \<subseteq> set v'"
    and parts: "\<And>s v'. s \<in> snd ` set entries \<Longrightarrow> set visited \<subseteq> set v' \<Longrightarrow>
                  settles (\<lambda>m. G m s v')"
  shows "settles (\<lambda>m. loopProperties (G m) entries obj visited)"
  using parts
proof (induction entries arbitrary: obj visited)
  case Nil
  show ?case by (simp add: settles_const)
next
  case (Cons entry rest)
  have first: "settles (\<lambda>m. G m (snd entry) visited)"
    by (rule Cons.prems) simp_all
  have "settles (\<lambda>m. bindO (G m (snd entry) visited) (\<lambda>res.
          loopProperties (G m) rest
            (if fst res \<noteq> ExJson JNull then setEx (fst entry) (fst res) obj else obj) (snd res)))"
  proof (rule settles_bindO[OF first])
    fix res n
    assume "\<And>m. n \<le> m \<Longrightarrow> G m (snd entry) visited = Returns res"
    then have "G n (snd entry) visited = Returns (fst res, snd res)" by simp
    from mono[OF this] have grow: "set visited \<subseteq> set (snd res)" .
    show "settles (\<lambda>m. loopProperties (G m) rest
            (if fst res \<noteq> ExJson JNull then setEx (fst entry) (fst res) obj else obj) (snd res))"
    proof (rule Cons.IH)
      fix s v'
      assume "s \<in> snd ` set rest" "set (snd res) \<subseteq> set v'"
      with grow show "settles (\<lambda>m. G m s v')" by (intro Cons.prems) auto
    qed
  qed
  then show ?case by simp
qed

lemma loopRequired_settles:
  assumes mono: "\<And>m s v e v'. G m s v = Returns (e, v') \<Longrightarrow> set v \<subseteq> set v'"
    and parts: "\<And>name v'. set visited \<subseteq> set v' \<Longrightarrow>
                  settles (\<lambda>m. G m (jsonOf (propV properties name)) v')"
  shows "settles (\<lambda>m. loopRequired (G m) conv inh properties required obj visited)"
  using parts
proof (induction required arbitrary: obj visited)
  case Nil
  show ?case by (simp add: settles_const)
next
  case (Cons requiredProp rest)
  show ?case
  proof (cases "ToString conv (J requiredProp)")
    case (Inl e)
    then show ?thesis by (simp add: settles_const)
  next
    case (Inr name)
    show ?thesis
    proof (cases "\<not> (name \<in> fst ` set obj \<or> inh name) \<and> truthyV properties \<and>
                  truthyV (propV properties name)")
      case False
      have "settles (\<lambda>m. loopRequired (G m) conv inh properties rest obj visited)"
        by (rule Cons.IH) (rule Cons.prems)
      then show ?thesis unfolding loopRequired_skip[where inh=inh and obj=obj and properties=properties, OF Inr False] .
    next
      case True
      have first: "settles (\<lambda>m. G m (jsonOf (propV properties name)) visited)"
        by (rule Cons.prems) simp
      have "settles (\<lambda>m. bindO (G m (jsonOf (propV properties name)) visited) (\<lambda>res.
              loopRequired (G m) conv inh properties rest
                (setEx name (if fst res \<noteq> ExJson JNull then fst res
                             else ExJson (JStr ''required_value'')) obj) (snd res)))"
      proof (rule settles_bindO[OF first])
        fix res n
        assume "\<And>m. n \<le> m \<Longrightarrow> G m (jsonOf (propV properties name)) visited = Returns res"
        then have "G n (jsonOf (propV properties name)) visited = Returns (fst res, snd res)"
          by simp
        from mono[OF this] have grow: "set visited \<subseteq> set (snd res)" .
        show "settles (\<lambda>m. loopRequired (G m) conv inh properties rest
                (setEx name (if fst res \<noteq> ExJson JNull then fst res
                             else ExJson (JStr ''required_value'')) obj) (snd res))"
        proof (rule Cons.IH)
          fix name' v'
          assume "set (snd res) \<subseteq> set v'"
          with grow show "settles (\<lambda>m. G m (jsonOf (propV properties name')) v')"
            by (intro Cons.prems) auto
        qed
      qed
      then show ?thesis unfolding loopRequired_take[where inh=inh and obj=obj and properties=properties, OF Inr True] .
    qed
  qed
qed


subsection \<open>The generator settles\<close>

lemma part_entries_propOf:
  assumes "s \<in> snd ` set (objectEntries (propOf schema k))"
  shows "part s schema"
proof (cases "propOf schema k")
  case (J p)
  with assms have sp: "part s p" by (simp add: part_entries)
  from J part_propOf[of schema k] have ps: "part p schema" by simp
  show ?thesis
  proof (cases "isObject s")
    case False
    then show ?thesis by (rule part_primitive)
  next
    case True
    with sp have "size s < size p" by (simp add: part_def)
    then have "isObject p" using sp True assms J by (cases p) (auto dest!: set_zip_rightD)
    from part_trans[OF ps this sp] show ?thesis .
  qed
qed (use assms in simp_all)

lemma part_propV_propOf: "part (jsonOf (propV (propOf schema k) name)) schema"
proof (cases "propOf schema k")
  case (J p)
  have c: "part (jsonOf (propOf p name)) p" by (rule part_propOf)
  from J part_propOf[of schema k] have ps: "part p schema" by simp
  show ?thesis
  proof (cases "isObject p")
    case True
    from part_trans[OF ps True c] J show ?thesis by (simp add: propOf_def)
  next
    case False
    then have "\<not> isObject (jsonOf (propOf p name))"
      by (cases p) (auto simp: propOf_def propV_def cannotRead_def element_def split: option.splits)
    then show ?thesis using J by (simp add: propOf_def part_primitive)
  qed
qed (simp_all add: propV_def cannotRead_def part_def)

lemma generateExampleFromSchema_primitive:
  assumes "\<not> isObject c"
  shows "settles (\<lambda>m. generateExampleFromSchema m conv pos inh spec c v)"
  by (rule settles_Suc) (simp add: assms settles_const)

lemma generateExampleFromSchema_settles:
  "settles (\<lambda>m. generateExampleFromSchema m conv pos inh spec schema visited)"
proof -
  let ?R = "allRefs spec"
  let ?mu = "\<lambda>(s, v). (card ((?R \<union> allRefs s) - set v), size s)"
  let ?rel = "inv_image (less_than <*lex*> less_than) ?mu"
  have wf: "wf ?rel" by (intro wf_inv_image wf_lex_prod wf_less_than)
  have "settles (\<lambda>m. generateExampleFromSchema m conv pos inh spec (fst p) (snd p))"
    for p :: "json \<times> string list"
    using wf
  proof (induction p rule: wf_induct_rule)
    case (less p)
    obtain schema visited where p: "p = (schema, visited)" by (cases p)
    let ?G = "\<lambda>m. generateExampleFromSchema m conv pos inh spec"
    have IH: "settles (\<lambda>m. ?G m c v')" if "((c, v'), (schema, visited)) \<in> ?rel" for c v'
      using less[of "(c, v')"] that p by simp
    have fin: "finite ((?R \<union> allRefs schema) - set visited)"
      by (simp add: finite_allRefs)
    have child: "settles (\<lambda>m. ?G m c v')" if c: "part c schema" and v: "set visited \<subseteq> set v'"
      for c v'
    proof (cases "isObject c")
      case False
      then show ?thesis by (rule generateExampleFromSchema_primitive)
    next
      case True
      with c have r: "allRefs c \<subseteq> allRefs schema" and sz: "size c < size schema"
        by (simp_all add: part_def)
      from r v have "(?R \<union> allRefs c) - set v' \<subseteq> (?R \<union> allRefs schema) - set visited"
        by blast
      from card_mono[OF fin this] sz show ?thesis by (intro IH) (simp, linarith)
    qed
    have viaRef: "settles (\<lambda>m. ?G m a (r # visited))"
      if a: "allRefs a \<subseteq> ?R" and r: "r \<in> allRefs schema" "r \<notin> set visited" for a r
    proof -
      from a r have "(?R \<union> allRefs a) - set (r # visited) \<subset> (?R \<union> allRefs schema) - set visited"
        by auto
      from psubset_card_mono[OF fin this] show ?thesis by (intro IH) simp
    qed
    have mono: "\<And>m s v e v'. ?G m s v = Returns (e, v') \<Longrightarrow> set v \<subseteq> set v'"
      by (rule generateExampleFromSchema_visited)
    let ?ref = "propOf schema ''$ref''"
    have "settles (\<lambda>m. ?G (Suc m) schema visited)"
    proof -
      consider (none) "\<not> isObject schema"
        | (hit) "isObject schema" "truthyV ?ref"
            "(case refString ?ref of Some r \<Rightarrow> r \<in> set visited | None \<Rightarrow> False)"
        | (ref) "isObject schema" "truthyV ?ref"
            "\<not> (case refString ?ref of Some r \<Rightarrow> r \<in> set visited | None \<Rightarrow> False)"
        | (example) "isObject schema" "\<not> truthyV ?ref" "propOf schema ''example'' \<noteq> Undefined"
        | (arr) "isObject schema" "\<not> truthyV ?ref"
            "propOf schema ''example'' = Undefined" "propOf schema ''type'' = J (JStr ''array'')"
        | (obj) "isObject schema" "\<not> truthyV ?ref"
            "propOf schema ''example'' = Undefined" "propOf schema ''type'' = J (JStr ''object'')"
        | (other) "isObject schema" "\<not> truthyV ?ref"
            "propOf schema ''example'' = Undefined" "propOf schema ''type'' \<noteq> J (JStr ''array'')"
            "propOf schema ''type'' \<noteq> J (JStr ''object'')"
        by blast
      then show ?thesis
      proof cases
        case none
        then show ?thesis by (simp add: settles_const)
      next
        case hit
        then show ?thesis by (simp add: settles_const)
      next
        case example
        then show ?thesis by (simp add: settles_const)
      next
        case other
        then have same: "\<And>m. ?G (Suc m) schema visited = ?G (Suc 0) schema visited" by simp
        from other have "?G (Suc 0) schema visited \<noteq> OutOfFuel" by simp
        then show ?thesis by (rule settlesI[where n=0]) (rule same)
      next
        case ref
        then have body: "\<And>m. ?G (Suc m) schema visited =
            bindO (resolveSchemaRef m spec visited ?ref) (\<lambda>resolvedSchema.
              if truthyV (J resolvedSchema)
              then ?G m resolvedSchema (stringOf ?ref # visited)
              else Returns (ExJson JNull, visited))"
          by simp
        show ?thesis unfolding body
        proof (rule settles_bindO[OF resolveSchemaRef_settles])
          fix a n
          assume "\<And>m. n \<le> m \<Longrightarrow> resolveSchemaRef m spec visited ?ref = Returns a"
          then have res: "resolveSchemaRef n spec visited ?ref = Returns a" by simp
          from resolveSchemaRef_string[OF res] obtain r where r: "?ref = J (JStr r)" by blast
          from resolveSchemaRef_refs[OF res] have a: "allRefs a \<subseteq> ?R" .
          from r ref(3) have nv: "r \<notin> set visited" by simp
          from r ref(1) have "r \<in> allRefs schema" by (intro ref_in_allRefs) simp_all
          from viaRef[OF a this nv] r
          have "settles (\<lambda>m. ?G m a (stringOf ?ref # visited))" by simp
          then show "settles (\<lambda>m. if truthyV (J a) then ?G m a (stringOf ?ref # visited)
                                   else Returns (ExJson JNull, visited))"
            by (intro settles_if) (simp_all add: settles_const)
        qed
      next
        case arr
        show ?thesis
        proof (cases "truthyV (propOf schema ''items'')")
          case False
          with arr show ?thesis by (simp add: settles_const)
        next
          case True
          with arr have body: "\<And>m. ?G (Suc m) schema visited =
              bindO (?G m (jsonOf (propOf schema ''items'')) visited) (\<lambda>res.
                Returns (if fst res \<noteq> ExJson JNull then ExArr [fst res] else ExArr [], snd res))"
            by simp
          have items: "settles (\<lambda>m. ?G m (jsonOf (propOf schema ''items'')) visited)"
            by (rule child) (simp_all add: part_propOf)
          show ?thesis unfolding body
            by (rule settles_bindO[OF items]) (simp add: settles_const)
        qed
      next
        case obj
        let ?props = "propOf schema ''properties''"
        let ?req = "propOf schema ''required''"
        let ?first = "\<lambda>m. if truthyV ?props
                          then loopProperties (?G m) (objectEntries ?props) [] visited
                          else Returns ([], visited)"
        let ?second = "\<lambda>res1 m. if truthyV ?req \<and> isArray ?req
                          then loopRequired (?G m) conv inh ?props
                                 (map snd (objectEntries ?req)) (fst res1) (snd res1)
                          else Returns res1"
        from obj have body: "\<And>m. ?G (Suc m) schema visited =
            bindO (?first m) (\<lambda>res1. bindO (?second res1 m) (\<lambda>res2.
              Returns (if fst res2 \<noteq> [] then ExObj (fst res2) else ExJson JNull, snd res2)))"
          by simp
        have first: "settles ?first"
        proof (rule settles_if)
          show "settles (\<lambda>m. loopProperties (?G m) (objectEntries ?props) [] visited)"
          proof (rule loopProperties_settles[where G="?G", OF mono])
            fix s v'
            assume "s \<in> snd ` set (objectEntries ?props)" "set visited \<subseteq> set v'"
            then show "settles (\<lambda>m. ?G m s v')"
              by (intro child part_entries_propOf)
          qed
        qed (simp add: settles_const)
        show ?thesis unfolding body
        proof (rule settles_bindO[OF first])
          fix res1 n
          assume stable: "\<And>m. n \<le> m \<Longrightarrow> ?first m = Returns res1"
          have grow: "set visited \<subseteq> set (snd res1)"
          proof (cases "truthyV ?props")
            case True
            with stable[of n] have "loopProperties (?G n) (objectEntries ?props) [] visited
                = Returns (fst res1, snd res1)" by simp
            then show ?thesis
              by (rule loopProperties_visited[where g="?G n", rotated]) (rule mono)
          next
            case False
            with stable[of n] show ?thesis by auto
          qed
          have second: "settles (?second res1)"
          proof (rule settles_if)
            show "settles (\<lambda>m. loopRequired (?G m) conv inh ?props
                                 (map snd (objectEntries ?req)) (fst res1) (snd res1))"
            proof (rule loopRequired_settles[where G="?G", OF mono])
              fix name v'
              assume "set (snd res1) \<subseteq> set v'"
              with grow have "set visited \<subseteq> set v'" by blast
              then show "settles (\<lambda>m. ?G m (jsonOf (propV ?props name)) v')"
                by (intro child part_propV_propOf)
            qed
          qed (simp add: settles_const)
          show "settles (\<lambda>m. bindO (?second res1 m) (\<lambda>res2.
              Returns (if fst res2 \<noteq> [] then ExObj (fst res2) else ExJson JNull, snd res2)))"
            by (rule settles_bindO[OF second]) (simp add: settles_const)
        qed
      qed
    qed
    then have "settles (\<lambda>m. ?G m schema visited)" by (rule settles_Suc)
    with p show ?case by simp
  qed
  from this[of "(schema, visited)"] show ?thesis by simp
qed


text \<open>
  Claim C9, as amended. \<open>generateExampleFromSchema\<close> has no infinite recursion on any
  document, also on one with a schema whose \<open>$ref\<close> chain comes back to itself, directly
  or through other schemas: for every document, schema and set \<open>visited\<close> there is a
  finite depth of recursion, depending on them, from which on the call has one and the
  same outcome, a return or a throw, and never exceeds the bound. The same holds for
  \<open>resolveSchemaRef\<close> on the copy of the set that it is given.
\<close>

theorem generateExampleFromSchema_terminates:
  "settles (\<lambda>n. generateExampleFromSchema n conv pos inherited spec schema visited) \<and>
   settles (\<lambda>n. resolveSchemaRef n spec visited ref)"
  using generateExampleFromSchema_settles resolveSchemaRef_settles by blast

theorem generateExampleFromSchema_terminates_witness:
  "(\<exists>n r. r \<noteq> OutOfFuel \<and>
      generateExampleFromSchema n sampleConv samplePositive sampleInherited cyclicSpec
        (JObj [(''$ref'', JStr ''#/components/schemas/Node'')]) [] = r \<and>
      generateExampleFromSchema (Suc n) sampleConv samplePositive sampleInherited cyclicSpec
        (JObj [(''$ref'', JStr ''#/components/schemas/Node'')]) [] = r) \<and>
   (\<exists>n r. r \<noteq> OutOfFuel \<and>
      resolveSchemaRef n cyclicSpec [] (J (JStr ''#/components/schemas/A'')) = r \<and>
      resolveSchemaRef (Suc n) cyclicSpec [] (J (JStr ''#/components/schemas/A'')) = r) \<and>
   generateExampleFromSchema 3 sampleConv samplePositive sampleInherited cyclicSpec
     (JObj [(''$ref'', JStr ''#/components/schemas/Node'')]) []
     = Returns (ExObj [(''label'', ExJson (JStr ''string'')),
                       (''next'', ExJson (JStr ''required_value''))],
                [''#/components/schemas/Node'']) \<and>
   generateExampleFromSchema 4 sampleConv samplePositive sampleInherited cyclicSpec
     (JObj [(''$ref'', JStr ''#/components/schemas/A'')]) []
     = Returns (ExJson JNull, [''#/components/schemas/A'']) \<and>
   resolveSchemaRef 3 cyclicSpec [] (J (JStr ''#/components/schemas/A''))
     = Returns (circularPlaceholder ''#/components/schemas/A'')"
proof -
  let ?f = "\<lambda>n. generateExampleFromSchema n sampleConv samplePositive sampleInherited cyclicSpec
        (JObj [(''$ref'', JStr ''#/components/schemas/Node'')]) []"
  let ?g = "\<lambda>n. resolveSchemaRef n cyclicSpec [] (J (JStr ''#/components/schemas/A''))"
  note t = generateExampleFromSchema_terminates[of sampleConv samplePositive sampleInherited
      cyclicSpec "JObj [(''$ref'', JStr ''#/components/schemas/Node'')]" "[]"
      "J (JStr ''#/components/schemas/A'')"]
  from t obtain n r where "r \<noteq> OutOfFuel" "\<forall>m\<ge>n. ?f m = r"
    unfolding settles_def by blast
  then have a: "\<exists>n r. r \<noteq> OutOfFuel \<and> ?f n = r \<and> ?f (Suc n) = r"
    by (intro exI[of _ n] exI[of _ r])
       (simp del: generateExampleFromSchema.simps resolveSchemaRef.simps)
  from t obtain n r where "r \<noteq> OutOfFuel" "\<forall>m\<ge>n. ?g m = r"
    unfolding settles_def by blast
  then have b: "\<exists>n r. r \<noteq> OutOfFuel \<and> ?g n = r \<and> ?g (Suc n) = r"
    by (intro exI[of _ n] exI[of _ r])
       (simp del: generateExampleFromSchema.simps resolveSchemaRef.simps)
  have c: "?f 3 = Returns (ExObj [(''label'', ExJson (JStr ''string'')),
                       (''next'', ExJson (JStr ''required_value''))],
                [''#/components/schemas/Node''])"
    by code_simp
  have d: "generateExampleFromSchema 4 sampleConv samplePositive sampleInherited cyclicSpec
     (JObj [(''$ref'', JStr ''#/components/schemas/A'')]) []
     = Returns (ExJson JNull, [''#/components/schemas/A''])"
    by code_simp
  have e: "?g 3 = Returns (circularPlaceholder ''#/components/schemas/A'')"
    by code_simp
  from a b c d e show ?thesis by blast
qed

text \<open>
  The depth that a call needs is not bounded over the documents: the schema \<open>nest n\<close>,
  which has no reference at all, exceeds the bound \<open>n\<close>, whatever the set \<open>visited\<close>.
\<close>

lemma nest_exceeds:
  "generateExampleFromSchema n conv pos inherited spec (nest n) visited = OutOfFuel"
proof (induction n)
  case 0
  show ?case by simp
next
  case (Suc n)
  have "propOf (nest (Suc n)) ''$ref'' = Undefined" "propOf (nest (Suc n)) ''example'' = Undefined"
    "propOf (nest (Suc n)) ''type'' = J (JStr ''array'')"
    "propOf (nest (Suc n)) ''items'' = J (nest n)"
    by (simp_all add: propOf_def propV_def lookupV_def)
  moreover have "truthyV (J (nest n))" by (cases n) simp_all
  ultimately show ?case using Suc by (simp add: bindO_def)
qed

text \<open>
  Claim C9 as stated fails: the set \<open>visited\<close> does not bound the depth of the recursion.
  On the schema of five nested arrays, in a document without any reference, the set
  stays empty, a call with the bound 5 exceeds it, and the call returns with the bound
  6. The same schema with 10000 arrays exceeds the bound 10000: on an engine whose call
  stack holds that many calls, the source ends with the \<open>RangeError\<close> of a stack overflow.
\<close>

theorem generateExampleFromSchema_depth_counterexample:
  "generateExampleFromSchema 5 sampleConv samplePositive sampleInherited (deepSpec 5) (nest 5) []
     = OutOfFuel \<and>
   generateExampleFromSchema 6 sampleConv samplePositive sampleInherited (deepSpec 5) (nest 5) []
     = Returns (ExArr [ExArr [ExArr [ExArr [ExArr [ExJson (JStr ''string'')]]]]], []) \<and>
   generateExampleFromSchema 10000 sampleConv samplePositive sampleInherited (deepSpec 10000)
     (nest 10000) [] = OutOfFuel"
proof -
  have a: "generateExampleFromSchema 5 sampleConv samplePositive sampleInherited (deepSpec 5)
      (nest 5) [] = OutOfFuel"
    by (rule nest_exceeds)
  have b: "generateExampleFromSchema 6 sampleConv samplePositive sampleInherited (deepSpec 5)
      (nest 5) []
     = Returns (ExArr [ExArr [ExArr [ExArr [ExArr [ExJson (JStr ''string'')]]]]], [])"
    by code_simp
  have c: "generateExampleFromSchema 10000 sampleConv samplePositive sampleInherited
      (deepSpec 10000) (nest 10000) [] = OutOfFuel"
    by (rule nest_exceeds)
  from a b c show ?thesis by blast
qed

end
